theory Spec2Isabelle
  imports Main "HOL-Library.Char_ord" "HOL-Library.List_Lexorder" "HOL-Library.Product_Lexorder"
begin

section \<open>Weekly ticket trends: the aggregation pipeline of app.py\<close>

text \<open>
  The program loads two tables of ticket records, merges them, labels every record with
  its ISO week, computes a week axis and a people axis, and on every change of the group
  filter rebuilds a dense table of counts per (week, person), from which it draws one line
  per person. Everything the program does with the data goes through pandas; the library
  calls are modelled here by the functions they are documented to compute.
\<close>

subsection \<open>Timestamps and the proleptic Gregorian calendar\<close>

text \<open>
  A pandas timestamp (\<^verbatim>\<open>datetime64[ns]\<close>) is a signed 64-bit count of nanoseconds since
  1970-01-01T00:00, whose least value is reserved for NaT. Dates are day numbers counted
  from the same origin.
\<close>

type_synonym timestamp = int

definition ns_per_day :: int where
  "ns_per_day = 86400000000000"

definition in_bounds :: "timestamp \<Rightarrow> bool" where
  "in_bounds t \<longleftrightarrow> - (2 ^ 63) < t \<and> t < 2 ^ 63"

definition date_of :: "timestamp \<Rightarrow> int" where
  "date_of t = t div ns_per_day"

text \<open>Day of the week, Monday = 0 (1970-01-01 was a Thursday).\<close>

definition weekday :: "int \<Rightarrow> int" where
  "weekday d = (d + 3) mod 7"

text \<open>Days before 1 January of a year, counted from 0001-01-01, and the day number of
  1 January.\<close>

definition days_before_year :: "int \<Rightarrow> int" where
  "days_before_year y = 365 * (y - 1) + (y - 1) div 4 - (y - 1) div 100 + (y - 1) div 400"

definition year_start :: "int \<Rightarrow> int" where
  "year_start y = days_before_year y - 719162"

text \<open>The calendar year of a day number, by the division into cycles of 400, 100, 4 and 1
  years that Python's datetime uses for ordinals.\<close>

definition year_of :: "int \<Rightarrow> int" where
  "year_of d =
    (let n = d + 719162;
         n400 = n div 146097; r400 = n mod 146097;
         n100 = r400 div 36524; r100 = r400 mod 36524;
         n4 = r100 div 1461; r4 = r100 mod 1461;
         n1 = r4 div 365;
         year = n400 * 400 + 1 + n100 * 100 + n4 * 4 + n1
     in if n1 = 4 \<or> n100 = 4 then year - 1 else year)"

definition is_leap :: "int \<Rightarrow> bool" where
  "is_leap y \<longleftrightarrow> y mod 4 = 0 \<and> (y mod 100 \<noteq> 0 \<or> y mod 400 = 0)"

definition days_before_month :: "int \<Rightarrow> int \<Rightarrow> int" where
  "days_before_month y m =
     [0, 31, 59, 90, 120, 151, 181, 212, 243, 273, 304, 334] ! nat (m - 1)
       + (if 2 < m \<and> is_leap y then 1 else 0)"

text \<open>The day number of a calendar date (month 1..12), used to write dates readably.\<close>

definition ymd :: "int \<Rightarrow> int \<Rightarrow> int \<Rightarrow> int" where
  "ymd y m d = year_start y + days_before_month y m + d - 1"

text \<open>A timestamp from a calendar date and a time of day in hours.\<close>

definition at_hour :: "int \<Rightarrow> int \<Rightarrow> timestamp" where
  "at_hour d h = d * ns_per_day + h * 3600000000000"

subsection \<open>ISO 8601 weeks: \<^verbatim>\<open>.dt.isocalendar()\<close>\<close>

text \<open>
  \<^verbatim>\<open>isocalendar()\<close> returns the ISO year and ISO week of each date. The model follows the
  reference algorithm of Python's \<^verbatim>\<open>date.isocalendar\<close>: week 1 of a year starts on the
  Monday nearest to 1 January.
\<close>

definition isoweek1monday :: "int \<Rightarrow> int" where
  "isoweek1monday year =
     (let firstday = year_start year;
          firstweekday = weekday firstday;
          week1monday = firstday - firstweekday
      in if firstweekday > 3 then week1monday + 7 else week1monday)"

definition isocalendar :: "int \<Rightarrow> int \<times> int" where
  "isocalendar today =
     (let year = year_of today;
          week = (today - isoweek1monday year) div 7
      in if week < 0 then (year - 1, (today - isoweek1monday (year - 1)) div 7 + 1)
         else if week \<ge> 52 \<and> today \<ge> isoweek1monday (year + 1) then (year + 1, 1)
         else (year, week + 1))"

text \<open>The same in the words of the standard: weeks run from Monday to Sunday, a week
  belongs to the year that holds its Thursday, and week 1 is the week of the year's first
  Thursday.\<close>

definition monday_of :: "int \<Rightarrow> int" where
  "monday_of d = d - weekday d"

definition first_thursday :: "int \<Rightarrow> int" where
  "first_thursday y = year_start y + (3 - weekday (year_start y)) mod 7"

definition iso8601_week :: "int \<Rightarrow> int \<times> int" where
  "iso8601_week d =
     (let thursday = monday_of d + 3; y = year_of thursday
      in (y, (thursday - first_thursday y) div 7 + 1))"

subsection \<open>Week labels: \<^verbatim>\<open>astype(str)\<close>, \<^verbatim>\<open>str.zfill\<close>, and \<^verbatim>\<open>strptime\<close>\<close>

definition digit :: "nat \<Rightarrow> char" where
  "digit n = ''0123456789'' ! n"

fun str_nat :: "nat \<Rightarrow> string" where
  "str_nat n = (if n < 10 then [digit n] else str_nat (n div 10) @ [digit (n mod 10)])"

definition str_int :: "int \<Rightarrow> string" where
  "str_int i = (if i < 0 then CHR ''-'' # str_nat (nat (- i)) else str_nat (nat i))"

text \<open>\<^verbatim>\<open>str.zfill(width)\<close> pads on the left with zeros up to the width.\<close>

definition zfill :: "nat \<Rightarrow> string \<Rightarrow> string" where
  "zfill width s = replicate (width - length s) CHR ''0'' @ s"

text \<open>The label of lines 42 and 47:
  \<^verbatim>\<open>year.astype(str) + '-W' + week.astype(str).str.zfill(2)\<close>.\<close>

definition label_of :: "int \<times> int \<Rightarrow> string" where
  "label_of yw = str_int (fst yw) @ ''-W'' @ zfill 2 (str_int (snd yw))"

text \<open>
  \<^verbatim>\<open>pd.to_datetime(s, format="%G-W%V-%u")\<close> matches the whole string against the
  pattern of the format: four digits for \<^verbatim>\<open>%G\<close>, the literal \<^verbatim>\<open>-W\<close>, a week
  \<^verbatim>\<open>5[0-3]|0[1-9]|[1-4]\d|\d\<close> for \<^verbatim>\<open>%V\<close>, a hyphen and a weekday \<^verbatim>\<open>[1-7]\<close> for
  \<^verbatim>\<open>%u\<close>; a string that does not match raises ValueError (here \<open>None\<close>). The date is
  then found from the ISO year, week and weekday as \<^verbatim>\<open>_calc_julian_from_V\<close> does.
\<close>

definition is_digit :: "char \<Rightarrow> bool" where
  "is_digit c \<longleftrightarrow> c \<in> set ''0123456789''"

definition digit_val :: "char \<Rightarrow> int" where
  "digit_val c = int (of_char c) - 48"

definition digits_val :: "string \<Rightarrow> int" where
  "digits_val s = foldl (\<lambda>a c. 10 * a + digit_val c) 0 s"

definition match_V :: "string \<Rightarrow> (int \<times> string) option" where
  "match_V s =
     (case s of
        [] \<Rightarrow> None
      | a # r \<Rightarrow>
          (case r of
             [] \<Rightarrow> if is_digit a then Some (digit_val a, r) else None
           | b # r' \<Rightarrow>
               if (a = CHR ''5'' \<and> b \<in> set ''0123'')
                  \<or> (a = CHR ''0'' \<and> b \<in> set ''123456789'')
                  \<or> (a \<in> set ''1234'' \<and> is_digit b)
               then Some (10 * digit_val a + digit_val b, r')
               else if is_digit a then Some (digit_val a, r) else None))"

definition strptime_GVu :: "string \<Rightarrow> (int \<times> int \<times> int) option" where
  "strptime_GVu s =
     (if length (take 4 s) = 4 \<and> list_all is_digit (take 4 s) \<and> take 2 (drop 4 s) = ''-W'' then
        (case match_V (drop 6 s) of
           None \<Rightarrow> None
         | Some (v, r) \<Rightarrow>
             if length r = 2 \<and> hd r = CHR ''-'' \<and> last r \<in> set ''1234567''
             then Some (digits_val (take 4 s), v, digit_val (last r)) else None)
      else None)"

definition calc_julian_from_V :: "int \<Rightarrow> int \<Rightarrow> int \<Rightarrow> int \<times> int" where
  "calc_julian_from_V iso_year iso_week iso_weekday =
     (let correction = (weekday (year_start iso_year + 3) + 1) + 3;
          ordinal = iso_week * 7 + iso_weekday - correction
      in if ordinal < 1
         then (iso_year - 1, ordinal + year_start iso_year - year_start (iso_year - 1))
         else (iso_year, ordinal))"

definition to_datetime_GVu :: "string \<Rightarrow> timestamp option" where
  "to_datetime_GVu s =
     (case strptime_GVu s of
        None \<Rightarrow> None
      | Some (g, v, u) \<Rightarrow>
          (let (year, julian) = calc_julian_from_V g v u
           in Some ((year_start year + julian - 1) * ns_per_day)))"

subsection \<open>The week axis: \<^verbatim>\<open>pd.date_range(start, end, freq='W-MON')\<close>\<close>

datatype error = ValueError

text \<open>
  \<^verbatim>\<open>date_range\<close> refuses NaT bounds with a ValueError. Otherwise a start that is not a
  Monday is rolled forward to the next Monday, keeping its time of day, and the range is
  generated from there in steps of one week while it does not pass the end. The end is left
  as it is, as pandas 2.2 and later do; earlier versions roll the end back to a Monday when
  the start is on one, which changes the result only through the times of day. The
  additions are those of unbounded integers: they leave the representable range only for
  data within a week of its upper end.
\<close>

definition rollforward :: "timestamp \<Rightarrow> timestamp" where
  "rollforward t =
     (let otherday = weekday (date_of t)
      in if otherday = 0 then t else t + ((0 - otherday) mod 7) * ns_per_day)"

function generate_range :: "timestamp \<Rightarrow> timestamp \<Rightarrow> timestamp list" where
  "generate_range cur stop =
     (if cur \<le> stop then cur # generate_range (cur + 7 * ns_per_day) stop else [])"
  by pat_completeness auto
termination
  by (relation "measure (\<lambda>(cur, stop). nat (stop - cur + 1))") (auto simp: ns_per_day_def)

declare generate_range.simps [simp del]
declare str_nat.simps [simp del]

definition date_range :: "timestamp option \<Rightarrow> timestamp option \<Rightarrow> error + timestamp list" where
  "date_range start stop =
     (case start of
        None \<Rightarrow> Inl ValueError
      | Some s \<Rightarrow>
          (case stop of
             None \<Rightarrow> Inl ValueError
           | Some e \<Rightarrow> Inr (generate_range (rollforward s) e)))"

text \<open>\<^verbatim>\<open>Series.min()\<close> and \<^verbatim>\<open>Series.max()\<close> of a timestamp column: NaT when it is empty.\<close>

definition series_min :: "timestamp list \<Rightarrow> timestamp option" where
  "series_min ts = (case ts of [] \<Rightarrow> None | t # r \<Rightarrow> Some (fold min r t))"

definition series_max :: "timestamp list \<Rightarrow> timestamp option" where
  "series_max ts = (case ts of [] \<Rightarrow> None | t # r \<Rightarrow> Some (fold max r t))"

subsection \<open>Loading and normalising the records (lines 17 to 49)\<close>

text \<open>
  A raw row is what \<^verbatim>\<open>read_csv\<close> gives for the three columns the program keeps: a missing
  cell is \<open>None\<close>. For \<^verbatim>\<open>opened_at\<close> the value is the one after
  \<^verbatim>\<open>pd.to_datetime(..., errors='coerce')\<close>, so \<open>None\<close> is NaT: a missing cell or a
  string that does not parse.
\<close>

datatype source = Incident | Task

record raw_row =
  raw_assigned_to :: "string option"
  raw_assignment_group :: "string option"
  raw_opened_at :: "timestamp option"

record row =
  assigned_to :: string
  assignment_group :: string
  opened_at :: timestamp
  source :: source
  year :: int
  week :: int
  week_label :: string

definition fillna :: "'a \<Rightarrow> 'a option \<Rightarrow> 'a" where
  "fillna v c = (case c of None \<Rightarrow> v | Some a \<Rightarrow> a)"

text \<open>One row through lines 29 to 42: the source label, the two \<^verbatim>\<open>fillna\<close>, the
  \<^verbatim>\<open>dropna\<close> on \<^verbatim>\<open>opened_at\<close>, and the year, week and label columns.\<close>

definition normalize_row :: "source \<Rightarrow> raw_row \<Rightarrow> row option" where
  "normalize_row src r =
     (case raw_opened_at r of
        None \<Rightarrow> None
      | Some t \<Rightarrow>
          Some \<lparr>assigned_to = fillna ''Unassigned'' (raw_assigned_to r),
                assignment_group = fillna ''Unknown'' (raw_assignment_group r),
                opened_at = t,
                source = src,
                year = fst (isocalendar (date_of t)),
                week = snd (isocalendar (date_of t)),
                week_label = label_of (isocalendar (date_of t))\<rparr>)"

definition combined_df :: "raw_row list \<Rightarrow> raw_row list \<Rightarrow> row list" where
  "combined_df incident_df task_df =
     List.map_filter id
       (map (normalize_row Incident) incident_df @ map (normalize_row Task) task_df)"

definition assignment_groups :: "row list \<Rightarrow> string list" where
  "assignment_groups df = sort (remdups (map assignment_group df))"

definition all_weeks :: "row list \<Rightarrow> error + timestamp list" where
  "all_weeks df = date_range (series_min (map opened_at df)) (series_max (map opened_at df))"

definition all_week_labels :: "timestamp list \<Rightarrow> string list" where
  "all_week_labels ws = map (\<lambda>t. label_of (isocalendar (date_of t))) ws"

definition unique_weeks :: "row list \<Rightarrow> error + string list" where
  "unique_weeks df =
     (case all_weeks df of
        Inl e \<Rightarrow> Inl e
      | Inr ws \<Rightarrow> Inr (sort (remdups (all_week_labels ws))))"

definition unique_people :: "row list \<Rightarrow> string list" where
  "unique_people df = sort (remdups (map assigned_to df))"

text \<open>The module's globals, as they stand once the module has been imported without an
  exception.\<close>

record globals =
  the_combined_df :: "row list"
  the_assignment_groups :: "string list"
  the_unique_weeks :: "string list"
  the_unique_people :: "string list"

definition load_module :: "raw_row list \<Rightarrow> raw_row list \<Rightarrow> error + globals" where
  "load_module incident_df task_df =
     (let df = combined_df incident_df task_df
      in case unique_weeks df of
           Inl e \<Rightarrow> Inl e
         | Inr ws \<Rightarrow>
             Inr \<lparr>the_combined_df = df,
                  the_assignment_groups = assignment_groups df,
                  the_unique_weeks = ws,
                  the_unique_people = unique_people df\<rparr>)"

subsection \<open>The callback \<^verbatim>\<open>update_chart\<close> (lines 89 to 138)\<close>

text \<open>Lines 90 to 92: a selection that is \<^verbatim>\<open>None\<close> or the empty string is falsy and
  leaves the table as it is; any other value keeps the rows of exactly that group.\<close>

definition select_group :: "row list \<Rightarrow> string option \<Rightarrow> row list" where
  "select_group df selected_group =
     (case selected_group of
        None \<Rightarrow> df
      | Some g \<Rightarrow> if g = [] then df else filter (\<lambda>r. assignment_group r = g) df)"

text \<open>Lines 94 to 98: \<^verbatim>\<open>groupby(['week_label', 'assigned_to']).size()\<close>, one entry per
  pair that occurs, in the order of the keys.\<close>

definition grouped :: "row list \<Rightarrow> ((string \<times> string) \<times> nat) list" where
  "grouped df =
     (let keys = map (\<lambda>r. (week_label r, assigned_to r)) df
      in map (\<lambda>k. (k, count_list keys k)) (sort (remdups keys)))"

text \<open>A row of the dense table: week label, person, count.\<close>

type_synonym cell = "string \<times> string \<times> nat"

definition cell_week :: "cell \<Rightarrow> string" where
  "cell_week c = fst c"

definition cell_person :: "cell \<Rightarrow> string" where
  "cell_person c = fst (snd c)"

definition cell_count :: "cell \<Rightarrow> nat" where
  "cell_count c = snd (snd c)"

text \<open>Lines 100 and 101: the index is the product of the two axes (weeks outermost), and
  \<^verbatim>\<open>reindex(full_index, fill_value=0)\<close> looks every pair up in the grouped counts.\<close>

definition reindex :: "((string \<times> string) \<times> nat) list \<Rightarrow> (string \<times> string) list \<Rightarrow> cell list" where
  "reindex g full_index =
     map (\<lambda>k. (fst k, snd k, case map_of g k of None \<Rightarrow> 0 | Some n \<Rightarrow> n)) full_index"

text \<open>Lines 103 to 105: the dictionary from each label of the week axis to the Monday
  of its week; a label that does not parse raises.\<close>

fun week_to_date :: "string list \<Rightarrow> error + (string \<times> timestamp) list" where
  "week_to_date [] = Inr []"
| "week_to_date (label # rest) =
     (case to_datetime_GVu (label @ ''-1'') of
        None \<Rightarrow> Inl ValueError
      | Some t \<Rightarrow>
          (case week_to_date rest of
             Inl e \<Rightarrow> Inl e
           | Inr d \<Rightarrow> Inr ((label, t) # d)))"

text \<open>Line 106: \<^verbatim>\<open>Series.map\<close> with a dictionary gives NaT for a missing key, and
  \<^verbatim>\<open>sort_values\<close> puts NaT last: the key is (0, t) for a date and (1, 0) for NaT.\<close>

definition week_sort :: "(string \<times> timestamp) list \<Rightarrow> string \<Rightarrow> nat \<times> timestamp" where
  "week_sort d label = (case map_of d label of None \<Rightarrow> (1, 0) | Some t \<Rightarrow> (0, t))"

text \<open>Lines 90 to 107: the dense table, sorted by week and person.\<close>

definition filled :: "globals \<Rightarrow> string option \<Rightarrow> error + cell list" where
  "filled m selected_group =
     (let df = select_group (the_combined_df m) selected_group;
          full_index = List.product (the_unique_weeks m) (the_unique_people m);
          reindexed = reindex (grouped df) full_index
      in case week_to_date (the_unique_weeks m) of
           Inl e \<Rightarrow> Inl e
         | Inr d \<Rightarrow> Inr (sort_key (\<lambda>c. (week_sort d (cell_week c), cell_person c)) reindexed))"

text \<open>Lines 117 to 119: \<^verbatim>\<open>groupby('assigned_to')['count'].sum()\<close>.\<close>

definition count_sums :: "cell list \<Rightarrow> (string \<times> nat) list" where
  "count_sums f =
     map (\<lambda>p. (p, sum_list (map cell_count (filter (\<lambda>c. cell_person c = p) f))))
       (sort (remdups (map cell_person f)))"

text \<open>
  Lines 120 and 121: \<^verbatim>\<open>sort_values(ascending=False).index.tolist()\<close>. The sort is the
  library's default \<^verbatim>\<open>kind='quicksort'\<close>, which is documented as not stable, so the
  library's contract fixes the result only up to the order of entries with equal values.
  \<open>sort_values_desc\<close> is that contract: it says which index lists the call may return,
  namely the entries in some order in which the values do not increase. The order that
  numpy's generic sorting kernel does return is computed by \<open>totals\<close> below.
\<close>

definition sort_values_desc :: "(string \<times> nat) list \<Rightarrow> string list \<Rightarrow> bool" where
  "sort_values_desc s idx \<longleftrightarrow>
     (let r = map (\<lambda>p. (p, case map_of s p of None \<Rightarrow> 0 | Some v \<Rightarrow> v)) idx
      in sort r = sort s \<and> sorted_wrt (\<lambda>a b. snd b \<le> snd a) r)"

subsection \<open>The order of equal totals: numpy's \<^verbatim>\<open>argsort(kind='quicksort')\<close>\<close>

text \<open>
  For a descending sort pandas (\<^verbatim>\<open>nargsort\<close>) reverses the values, calls numpy's
  \<^verbatim>\<open>argsort\<close> on them and reverses the resulting positions. numpy's generic kernel
  (\<^verbatim>\<open>aquicksort\<close> in \<^verbatim>\<open>npysort/quicksort.cpp\<close>) sorts an array of positions
  \<^verbatim>\<open>tosort\<close> by the values \<^verbatim>\<open>v\<close>: while a range spans more than 16 positions
  (\<^verbatim>\<open>while ((pr - pl) > SMALL_QUICKSORT)\<close>, with \<^verbatim>\<open>pr = pl + num - 1\<close> at the start) it is
  partitioned around the median of its first, middle and last entry, the larger part is
  pushed on a stack and the smaller one is continued with; a range of at most 17 entries
  is sorted by insertion, which keeps equal values in their order. So 18 entries are the
  fewest that are partitioned. A depth counter, twice the index of the highest bit of the
  length, is decreased with every partition; when a popped range has a negative counter
  the kernel sorts it by heapsort, which is not modelled: the result is \<open>None\<close> then, as
  it is where a read would leave the array (the kernel never does). Builds of numpy that
  hand the sort to a vectorised kernel of the processor may order equal values otherwise.
\<close>

definition swap :: "nat \<Rightarrow> nat \<Rightarrow> nat list \<Rightarrow> nat list" where
  "swap i j a = a[i := a ! j, j := a ! i]"

text \<open>\<^verbatim>\<open>while (less(v[*pi], vp)) ++pi\<close> and \<^verbatim>\<open>while (less(vp, v[*pj])) --pj\<close>.\<close>

function scan_up :: "nat list \<Rightarrow> nat \<Rightarrow> nat list \<Rightarrow> nat \<Rightarrow> nat option" where
  "scan_up v vp tosort pi =
     (if pi < length tosort
      then if v ! (tosort ! pi) < vp then scan_up v vp tosort (pi + 1) else Some pi
      else None)"
  by pat_completeness auto
termination
  by (relation "measure (\<lambda>(v, vp, tosort, pi). length tosort - pi)") auto

function scan_down :: "nat list \<Rightarrow> nat \<Rightarrow> nat list \<Rightarrow> nat \<Rightarrow> nat option" where
  "scan_down v vp tosort pj =
     (if vp < v ! (tosort ! pj)
      then if 0 < pj then scan_down v vp tosort (pj - 1) else None
      else Some pj)"
  by pat_completeness auto
termination
  by (relation "measure (\<lambda>(v, vp, tosort, pj). pj)") auto

text \<open>The loop \<^verbatim>\<open>for (;;)\<close> of the partition: both scans step once before they test,
  the loop ends when they meet, and otherwise the two entries are exchanged.\<close>

partial_function (option) partition_loop ::
  "nat list \<Rightarrow> nat \<Rightarrow> nat list \<Rightarrow> nat \<Rightarrow> nat \<Rightarrow> (nat list \<times> nat) option" where
  "partition_loop v vp tosort pi pj =
     (case scan_up v vp tosort (pi + 1) of
        None \<Rightarrow> None
      | Some pi' \<Rightarrow>
          (case (if 0 < pj then scan_down v vp tosort (pj - 1) else None) of
             None \<Rightarrow> None
           | Some pj' \<Rightarrow>
               if pi' \<ge> pj' then Some (tosort, pi')
               else partition_loop v vp (swap pi' pj' tosort) pi' pj'))"

definition median_of_three :: "nat list \<Rightarrow> nat list \<Rightarrow> nat \<Rightarrow> nat \<Rightarrow> nat \<Rightarrow> nat list" where
  "median_of_three v tosort pl pm pr =
     (let t1 = (if v ! (tosort ! pm) < v ! (tosort ! pl) then swap pm pl tosort else tosort);
          t2 = (if v ! (t1 ! pr) < v ! (t1 ! pm) then swap pr pm t1 else t1)
      in if v ! (t2 ! pm) < v ! (t2 ! pl) then swap pm pl t2 else t2)"

text \<open>One partition of the range from \<open>pl\<close> to \<open>pr\<close>: the new array and the final place of
  the pivot.\<close>

definition partition :: "nat list \<Rightarrow> nat list \<Rightarrow> nat \<Rightarrow> nat \<Rightarrow> (nat list \<times> nat) option" where
  "partition v tosort pl pr =
     (let pm = pl + (pr - pl) div 2;
          t = median_of_three v tosort pl pm pr;
          vp = v ! (t ! pm)
      in case partition_loop v vp (swap pm (pr - 1) t) pl (pr - 1) of
           None \<Rightarrow> None
         | Some (t', pi) \<Rightarrow> Some (swap pi (pr - 1) t', pi))"

text \<open>The insertion sort of a range: an entry moves back over the entries whose value is
  strictly greater.\<close>

function insert_back :: "nat list \<Rightarrow> nat \<Rightarrow> nat \<Rightarrow> nat list \<Rightarrow> nat \<Rightarrow> nat \<Rightarrow> nat list" where
  "insert_back v vp vi tosort pl pj =
     (if pl < pj \<and> vp < v ! (tosort ! (pj - 1))
      then insert_back v vp vi (tosort[pj := tosort ! (pj - 1)]) pl (pj - 1)
      else tosort[pj := vi])"
  by pat_completeness auto
termination
  by (relation "measure (\<lambda>(v, vp, vi, tosort, pl, pj). pj)") auto

function insertion_sort :: "nat list \<Rightarrow> nat list \<Rightarrow> nat \<Rightarrow> nat \<Rightarrow> nat \<Rightarrow> nat list" where
  "insertion_sort v tosort pl pi pr =
     (if pi \<le> pr
      then insertion_sort v
             (insert_back v (v ! (tosort ! pi)) (tosort ! pi) tosort pl pi) pl (pi + 1) pr
      else tosort)"
  by pat_completeness auto
termination
  by (relation "measure (\<lambda>(v, tosort, pl, pi, pr). pr + 1 - pi)") auto

text \<open>The outer loop, with the stack of the ranges still to sort and their depth
  counters. The counter is tested when a range is taken up (\<open>popped\<close>), not between the
  partitions of one range.\<close>

partial_function (option) quicksort_loop ::
  "nat list \<Rightarrow> nat list \<Rightarrow> nat \<Rightarrow> nat \<Rightarrow> (nat \<times> nat \<times> int) list \<Rightarrow> int \<Rightarrow> bool
     \<Rightarrow> nat list option" where
  "quicksort_loop v tosort pl pr stack cdepth popped =
     (if popped \<and> cdepth < 0 then None
      else if 16 < pr - pl then
        (case partition v tosort pl pr of
           None \<Rightarrow> None
         | Some (t, pi) \<Rightarrow>
             if pi - pl < pr - pi
             then quicksort_loop v t pl (pi - 1) ((pi + 1, pr, cdepth - 1) # stack) (cdepth - 1) False
             else quicksort_loop v t (pi + 1) pr ((pl, pi - 1, cdepth - 1) # stack) (cdepth - 1) False)
      else
        (case stack of
           [] \<Rightarrow> Some (insertion_sort v tosort pl (pl + 1) pr)
         | (pl', pr', cdepth') # rest \<Rightarrow>
             quicksort_loop v (insertion_sort v tosort pl (pl + 1) pr) pl' pr' rest cdepth' True))"

function npy_get_msb :: "nat \<Rightarrow> nat" where
  "npy_get_msb unum = (if unum div 2 = 0 then 0 else npy_get_msb (unum div 2) + 1)"
  by pat_completeness auto
termination
  by (relation "measure id") auto

declare scan_up.simps [simp del]
declare scan_down.simps [simp del]
declare insert_back.simps [simp del]
declare insertion_sort.simps [simp del]
declare npy_get_msb.simps [simp del]
declare quicksort_loop.simps [code]
declare partition_loop.simps [code]

definition aquicksort :: "nat list \<Rightarrow> nat list option" where
  "aquicksort v =
     (if v = [] then Some []
      else quicksort_loop v [0 ..< length v] 0 (length v - 1) [] (2 * int (npy_get_msb (length v)))
             True)"

text \<open>\<^verbatim>\<open>nargsort(items, ascending=False)\<close> for values without NaN: the positions, in
  the order in which their values come.\<close>

definition nargsort_descending :: "nat list \<Rightarrow> nat list option" where
  "nargsort_descending items =
     (case aquicksort (rev items) of
        None \<Rightarrow> None
      | Some a \<Rightarrow> Some (rev (map (\<lambda>i. length items - 1 - i) a)))"

text \<open>Lines 117 to 122: the people in the order of their totals, as this kernel returns
  them.\<close>

definition totals :: "cell list \<Rightarrow> string list option" where
  "totals f =
     (case nargsort_descending (map snd (count_sums f)) of
        None \<Rightarrow> None
      | Some indexer \<Rightarrow> Some (map (\<lambda>i. fst (count_sums f ! i)) indexer))"

record trace =
  trace_name :: string
  trace_x :: "string list"
  trace_y :: "nat list"
  trace_text :: "string list"
  trace_color :: string

definition palette :: "string list" where
  "palette = [''#1f77b4'', ''#ff7f0e'', ''#2ca02c'', ''#d62728'', ''#9467bd'',
              ''#8c564b'', ''#e377c2'', ''#7f7f7f'', ''#bcbd22'', ''#17becf'']"

text \<open>Lines 124 to 138: the line of one person, from the rows of the sorted table that
  carry the person's name.\<close>

definition person_trace :: "cell list \<Rightarrow> nat \<times> string \<Rightarrow> trace" where
  "person_trace f ip =
     (let person_df = filter (\<lambda>c. cell_person c = snd ip) f
      in \<lparr>trace_name = snd ip,
          trace_x = map cell_week person_df,
          trace_y = map cell_count person_df,
          trace_text = map (\<lambda>c. if 0 < cell_count c then str_nat (cell_count c) else []) person_df,
          trace_color = palette ! (fst ip mod length palette)\<rparr>)"

text \<open>\<open>update_chart m selected_group fig\<close>: the call may return the figure whose traces
  are \<open>fig\<close>, in this order.\<close>

definition update_chart :: "globals \<Rightarrow> string option \<Rightarrow> trace list \<Rightarrow> bool" where
  "update_chart m selected_group fig \<longleftrightarrow>
     (case filled m selected_group of
        Inl e \<Rightarrow> False
      | Inr f \<Rightarrow>
          sort_values_desc (count_sums f) (map trace_name fig)
          \<and> fig = map (person_trace f) (enumerate 0 (map trace_name fig)))"

text \<open>The figure that the call returns with the kernel above: the traces in the order of
  \<open>totals\<close>. \<open>Inl\<close> is an exception, \<open>Inr None\<close> a sort that the model does not
  follow.\<close>

definition update_chart_returns :: "globals \<Rightarrow> string option \<Rightarrow> error + trace list option" where
  "update_chart_returns m selected_group =
     (case filled m selected_group of
        Inl e \<Rightarrow> Inl e
      | Inr f \<Rightarrow> Inr (map_option (\<lambda>ts. map (person_trace f) (enumerate 0 ts)) (totals f)))"

text \<open>The week key that a label stands for, read back as \<^verbatim>\<open>strptime\<close> reads it.\<close>

definition week_key :: "string \<Rightarrow> (int \<times> int) option" where
  "week_key label =
     (case strptime_GVu (label @ ''-1'') of None \<Rightarrow> None | Some (g, v, u) \<Rightarrow> Some (g, v))"

text \<open>Input whose timestamps are all representable: every \<^verbatim>\<open>opened_at\<close> that parsed
  lies in the range of the timestamp type.\<close>

definition valid_input :: "raw_row list \<Rightarrow> raw_row list \<Rightarrow> bool" where
  "valid_input incident_df task_df \<longleftrightarrow>
     list_all (\<lambda>r. case raw_opened_at r of None \<Rightarrow> True | Some t \<Rightarrow> in_bounds t)
       (incident_df @ task_df)"

text \<open>A raw row with all three cells present.\<close>

definition ticket :: "string \<Rightarrow> string \<Rightarrow> timestamp \<Rightarrow> raw_row" where
  "ticket person grp t =
     \<lparr>raw_assigned_to = Some person, raw_assignment_group = Some grp, raw_opened_at = Some t\<rparr>"

subsection \<open>Example data\<close>

text \<open>The scenario of the specification: A opens a ticket on Wednesday 3 January 2024,
  B one on Wednesday 17 January 2024.\<close>

definition scenario_incident :: "raw_row list" where
  "scenario_incident = [ticket ''A'' ''X'' (at_hour (ymd 2024 1 3) 0)]"

definition scenario_task :: "raw_row list" where
  "scenario_task = [ticket ''B'' ''Y'' (at_hour (ymd 2024 1 17) 0)]"

definition scenario_globals :: globals where
  "scenario_globals =
     \<lparr>the_combined_df =
        [\<lparr>assigned_to = ''A'', assignment_group = ''X'', opened_at = at_hour (ymd 2024 1 3) 0,
          source = Incident, year = 2024, week = 1, week_label = ''2024-W01''\<rparr>,
         \<lparr>assigned_to = ''B'', assignment_group = ''Y'', opened_at = at_hour (ymd 2024 1 17) 0,
          source = Task, year = 2024, week = 3, week_label = ''2024-W03''\<rparr>],
      the_assignment_groups = [''X'', ''Y''],
      the_unique_weeks = [''2024-W02'', ''2024-W03''],
      the_unique_people = [''A'', ''B'']\<rparr>"

text \<open>Two tickets on Mondays either side of the new year: 23 December 2024 and
  6 January 2025, and the globals the module computes from them.\<close>

definition year_end_incident :: "raw_row list" where
  "year_end_incident = [ticket ''A'' ''X'' (at_hour (ymd 2024 12 23) 0)]"

definition year_end_task :: "raw_row list" where
  "year_end_task = [ticket ''B'' ''Y'' (at_hour (ymd 2025 1 6) 0)]"

definition year_end_globals :: globals where
  "year_end_globals =
     \<lparr>the_combined_df =
        [\<lparr>assigned_to = ''A'', assignment_group = ''X'', opened_at = at_hour (ymd 2024 12 23) 0,
          source = Incident, year = 2024, week = 52, week_label = ''2024-W52''\<rparr>,
         \<lparr>assigned_to = ''B'', assignment_group = ''Y'', opened_at = at_hour (ymd 2025 1 6) 0,
          source = Task, year = 2025, week = 2, week_label = ''2025-W02''\<rparr>],
      the_assignment_groups = [''X'', ''Y''],
      the_unique_weeks = [''2024-W52'', ''2025-W01'', ''2025-W02''],
      the_unique_people = [''A'', ''B'']\<rparr>"

text \<open>The figure for the year-end data with no selection.\<close>

definition year_end_figure :: "trace list" where
  "year_end_figure =
     [\<lparr>trace_name = ''A'', trace_x = [''2024-W52'', ''2025-W01'', ''2025-W02''],
       trace_y = [1, 0, 0], trace_text = [''1'', [], []], trace_color = ''#1f77b4''\<rparr>,
      \<lparr>trace_name = ''B'', trace_x = [''2024-W52'', ''2025-W01'', ''2025-W02''],
       trace_y = [0, 0, 1], trace_text = [[], [], ''1''], trace_color = ''#ff7f0e''\<rparr>]"




text \<open>Two tickets in one week, the earlier on a Wednesday: 3 and 5 January 2024.\<close>

definition one_week_incident :: "raw_row list" where
  "one_week_incident = [ticket ''A'' ''X'' (at_hour (ymd 2024 1 3) 9)]"

definition one_week_task :: "raw_row list" where
  "one_week_task = [ticket ''B'' ''Y'' (at_hour (ymd 2024 1 5) 14)]"

section \<open>Properties\<close>

subsection \<open>The calendar: years\<close>

lemma step_div:
  assumes "0 < k"
  shows "(y::int) div k - (y - 1) div k = (if k dvd y then 1 else 0)"
proof -
  define q r where "q = y div k" and "r = y mod k"
  have y: "y = k * q + r" and r: "0 \<le> r" "r < k" using assms by (simp_all add: q_def r_def)
  show ?thesis
  proof (cases "r = 0")
    case True
    have "y - 1 = k * (q - 1) + (k - 1)" using y True by (simp add: algebra_simps)
    then have "(y - 1) div k = q - 1" by (rule int_div_pos_eq) (use assms in simp_all)
    moreover have "k dvd y" using True by (simp add: r_def dvd_eq_mod_eq_0)
    ultimately show ?thesis by (simp add: q_def)
  next
    case False
    have "y - 1 = k * q + (r - 1)" using y by simp
    then have "(y - 1) div k = q" by (rule int_div_pos_eq) (use r False in simp_all)
    moreover have "\<not> k dvd y" using False by (simp add: r_def dvd_eq_mod_eq_0)
    ultimately show ?thesis by (simp add: q_def)
  qed
qed

lemma year_len: "year_start (y + 1) - year_start y = 365 \<or> year_start (y + 1) - year_start y = 366"
proof -
  define p4 p100 p400 where "p4 = y div 4 - (y - 1) div 4" and "p100 = y div 100 - (y - 1) div 100"
    and "p400 = y div 400 - (y - 1) div 400"
  have a: "p4 = (if 4 dvd y then 1 else 0)" unfolding p4_def by (rule step_div) simp
  have b: "p100 = (if 100 dvd y then 1 else 0)" unfolding p100_def by (rule step_div) simp
  have c: "p400 = (if 400 dvd y then 1 else 0)" unfolding p400_def by (rule step_div) simp
  have d: "400 dvd y \<Longrightarrow> 100 dvd y" using dvd_trans[of 100 400 y] by simp
  have e: "100 dvd y \<Longrightarrow> 4 dvd y" using dvd_trans[of 4 100 y] by simp
  have "p4 - p100 + p400 = 0 \<or> p4 - p100 + p400 = 1" using a b c d e by auto
  moreover have "year_start (y + 1) - year_start y = 365 + (p4 - p100 + p400)"
    unfolding year_start_def days_before_year_def p4_def p100_def p400_def by simp
  ultimately show ?thesis by auto
qed

lemma dby_decomp:
  assumes "0 \<le> b" "b \<le> 3" "0 \<le> c" "c \<le> 24" "0 \<le> e" "e \<le> 3"
  shows "days_before_year (400*a + 100*b + 4*c + e + 1) = 146097*a + 36524*b + 1461*c + 365*e"
proof -
  have 1: "(400*a + 100*b + 4*c + e) div 400 = a"
    by (rule int_div_pos_eq[where r = "100*b + 4*c + e"]) (use assms in simp_all)
  have 2: "(400*a + 100*b + 4*c + e) div 100 = 4*a + b"
    by (rule int_div_pos_eq[where r = "4*c + e"]) (use assms in simp_all)
  have 3: "(400*a + 100*b + 4*c + e) div 4 = 100*a + 25*b + c"
    by (rule int_div_pos_eq[where r = e]) (use assms in simp_all)
  show ?thesis unfolding days_before_year_def using 1 2 3 by simp
qed

lemma year_of_bounds: "year_start (year_of d) \<le> d \<and> d < year_start (year_of d + 1)"
proof -
  define n where "n = d + 719162"
  define a where "a = n div 146097"
  define r where "r = n mod 146097"
  define b where "b = r div 36524"
  define r' where "r' = r mod 36524"
  define c where "c = r' div 1461"
  define r'' where "r'' = r' mod 1461"
  define e where "e = r'' div 365"
  define f where "f = r'' mod 365"
  have n: "n = 146097 * a + r" "0 \<le> r" "r < 146097" by (simp_all add: a_def r_def)
  have r: "r = 36524 * b + r'" "0 \<le> r'" "r' < 36524" by (simp_all add: b_def r'_def)
  have r': "r' = 1461 * c + r''" "0 \<le> r''" "r'' < 1461" by (simp_all add: c_def r''_def)
  have r'': "r'' = 365 * e + f" "0 \<le> f" "f < 365" by (simp_all add: e_def f_def)
  have b: "0 \<le> b" "b \<le> 4" using n(2,3) by (simp_all add: b_def pos_imp_zdiv_nonneg_iff) 
  have c: "0 \<le> c" "c \<le> 24" using r(2,3) by (simp_all add: c_def pos_imp_zdiv_nonneg_iff)
  have e: "0 \<le> e" "e \<le> 4" using r'(2,3) by (simp_all add: e_def pos_imp_zdiv_nonneg_iff)
  have y: "year_of d = (if e = 4 \<or> b = 4 then 400*a + 100*b + 4*c + e else 400*a + 100*b + 4*c + e + 1)"
    unfolding year_of_def Let_def n_def[symmetric] a_def[symmetric] r_def[symmetric]
      b_def[symmetric] r'_def[symmetric] c_def[symmetric] r''_def[symmetric] e_def[symmetric]
    by simp
  consider (b4) "b = 4" | (e4) "b \<le> 3" "e = 4" | (norm) "b \<le> 3" "e \<le> 3" using b e by linarith
  then show ?thesis
  proof cases
    case b4
    then have "r' = 0" "r = 146096" using n r by linarith+
    then have ce: "c = 0" "e = 0" "f = 0" "r'' = 0" using r' r'' c e by linarith+
    have y1: "year_of d = 400*a + 100*3 + 4*24 + 3 + 1" using y b4 ce by simp
    have y2: "year_of d + 1 = 400*(a+1) + 100*0 + 4*0 + 0 + 1" using y b4 ce by simp
    have "days_before_year (year_of d) = 146097*a + 36524*3 + 1461*24 + 365*3"
      unfolding y1 by (rule dby_decomp) simp_all
    moreover have "days_before_year (year_of d + 1) = 146097*(a+1) + 36524*0 + 1461*0 + 365*0"
      unfolding y2 by (rule dby_decomp) simp_all
    ultimately show ?thesis unfolding year_start_def using n \<open>r = 146096\<close> n_def by simp
  next
    case e4
    then have "r'' = 1460" "f = 0" using r'' r' by linarith+
    then have c23: "c \<le> 23" using r' r by linarith
    have y1: "year_of d = 400*a + 100*b + 4*c + 3 + 1" using y e4 by simp
    have y2: "year_of d + 1 = 400*a + 100*b + 4*(c+1) + 0 + 1" using y e4 by simp
    have "days_before_year (year_of d) = 146097*a + 36524*b + 1461*c + 365*3"
      unfolding y1 using b e4 c by (intro dby_decomp) simp_all
    moreover have "days_before_year (year_of d + 1) = 146097*a + 36524*b + 1461*(c+1) + 365*0"
      unfolding y2 using b e4 c c23 by (intro dby_decomp) simp_all
    ultimately show ?thesis unfolding year_start_def using n r r' \<open>r'' = 1460\<close> n_def by simp
  next
    case norm
    have y1: "year_of d = 400*a + 100*b + 4*c + e + 1" using y norm by simp
    have "days_before_year (year_of d) = 146097*a + 36524*b + 1461*c + 365*e"
      unfolding y1 using b c e norm by (intro dby_decomp) simp_all
    then have "year_start (year_of d) = d - f"
      unfolding year_start_def using n r r' r'' n_def by simp
    then show ?thesis using year_len[of "year_of d"] r'' by linarith
  qed
qed

lemma year_start_mono: "y \<le> z \<Longrightarrow> year_start y \<le> year_start z"
proof (induction "nat (z - y)" arbitrary: z)
  case 0 then show ?case by simp
next
  case (Suc k)
  then have "k = nat ((z - 1) - y)" "y \<le> z - 1" by linarith+
  then have "year_start y \<le> year_start (z - 1)" using Suc(1) by blast
  then show ?case using year_len[of "z - 1"] by auto
qed

lemma year_start_less: "y < z \<Longrightarrow> year_start y + 365 \<le> year_start z"
  using year_start_mono[of "y + 1" z] year_len[of y] by linarith

lemma year_of_eqI: "year_start y \<le> d \<Longrightarrow> d < year_start (y + 1) \<Longrightarrow> year_of d = y"
  using year_of_bounds[of d] year_start_less[of y "year_of d"] year_start_less[of "year_of d" y]
    year_start_mono[of "y + 1" "year_of d"] year_start_mono[of "year_of d + 1" y]
  by linarith

lemma year_of_mono: "d \<le> d' \<Longrightarrow> year_of d \<le> year_of d'"
  using year_of_bounds[of d] year_of_bounds[of d'] year_start_mono[of "year_of d' + 1" "year_of d"]
  by linarith

subsection \<open>Mondays and ISO weeks\<close>

lemma mod7_diff: "a mod 7 = (4::int) \<Longrightarrow> b mod 7 = 4 \<Longrightarrow> \<exists>k. a = b + 7 * k"
proof -
  assume "a mod 7 = 4" "b mod 7 = 4"
  then have "7 dvd (a - b)" by (simp add: mod_eq_dvd_iff[symmetric])
  then obtain k where "a - b = 7 * k" by (auto simp: dvd_def)
  then have "a = b + 7 * k" by simp
  then show ?thesis by blast
qed

lemma weekday_range: "0 \<le> weekday d" "weekday d < 7"
  by (simp_all add: weekday_def)

lemma monday_of_props: "monday_of d mod 7 = 4" "monday_of d \<le> d" "d < monday_of d + 7"
proof -
  define q where "q = (d + 3) div 7"
  define m where "m = (d + 3) mod 7"
  have "q * 7 + m = d + 3" unfolding q_def m_def by (rule div_mult_mod_eq)
  then have "d - m = 4 + 7 * (q - 1)" by simp
  then have "monday_of d = 4 + 7 * (q - 1)" unfolding monday_of_def weekday_def m_def .
  moreover have "(4 + 7 * (q - 1)) mod 7 = (4::int) mod 7" by (rule mod_mult_self2)
  ultimately show "monday_of d mod 7 = 4" by simp
  show "monday_of d \<le> d" "d < monday_of d + 7" using weekday_range[of d] by (simp_all add: monday_of_def)
qed

lemma isoweek1monday_if:
  "isoweek1monday y = (if 3 < weekday (year_start y) then monday_of (year_start y) + 7 else monday_of (year_start y))"
  by (simp add: isoweek1monday_def Let_def monday_of_def)

lemma isoweek1monday_props:
  "isoweek1monday y mod 7 = 4" "year_start y - 3 \<le> isoweek1monday y" "isoweek1monday y \<le> year_start y + 3"
proof -
  show "isoweek1monday y mod 7 = 4"
    using monday_of_props(1)[of "year_start y"] by (simp add: isoweek1monday_if)
  show "year_start y - 3 \<le> isoweek1monday y" "isoweek1monday y \<le> year_start y + 3"
    using weekday_range[of "year_start y"] by (simp_all add: isoweek1monday_if monday_of_def)
qed

lemma isoweek1monday_eq: "isoweek1monday y = first_thursday y - 3"
proof (cases "3 < weekday (year_start y)")
  case True
  then have "(3 - weekday (year_start y) + 7) mod 7 = 3 - weekday (year_start y) + 7"
    using weekday_range[of "year_start y"] by (intro mod_pos_pos_trivial) simp_all
  moreover have "(3 - weekday (year_start y)) mod 7 = (3 - weekday (year_start y) + 7) mod 7"
    by (simp only: mod_add_self2)
  ultimately have "(3 - weekday (year_start y)) mod 7 = 10 - weekday (year_start y)"
    by linarith
  then show ?thesis using True by (simp add: isoweek1monday_if first_thursday_def monday_of_def)
next
  case False
  then have "(3 - weekday (year_start y)) mod 7 = 3 - weekday (year_start y)"
    using weekday_range[of "year_start y"] by (intro mod_pos_pos_trivial) simp_all
  then show ?thesis using False by (simp add: isoweek1monday_if first_thursday_def monday_of_def)
qed

lemma week_div: assumes "M mod 7 = (4::int)" shows "(d - M) div 7 = (monday_of d - M) div 7"
proof -
  obtain k where k: "monday_of d = M + 7 * k" using mod7_diff[OF monday_of_props(1) assms] by blast
  have "d - M = 7 * k + weekday d" using k by (simp add: monday_of_def)
  then have "(d - M) div 7 = k" using weekday_range[of d] by (intro int_div_pos_eq[where r = "weekday d"]) simp_all
  then show ?thesis using k by simp
qed


lemma monday_le_iff: assumes "M mod 7 = (4::int)" shows "M \<le> monday_of d \<longleftrightarrow> M \<le> d"
proof -
  obtain k where k: "monday_of d = M + 7 * k" using mod7_diff[OF monday_of_props(1) assms] by blast
  show ?thesis using k monday_of_props(2,3)[of d] by auto
qed

lemma isocalendar_iso8601: "isocalendar d = iso8601_week d"
proof -
  define y0 where "y0 = year_of d"
  define t where "t = monday_of d + 3"
  note M0 = isoweek1monday_props[of y0]
  note Mm = isoweek1monday_props[of "y0 - 1"]
  note M1 = isoweek1monday_props[of "y0 + 1"]
  note md = monday_of_props(2,3)[of d]
  have d: "year_start y0 \<le> d" "d < year_start (y0 + 1)" using year_of_bounds[of d] by (simp_all add: y0_def)
  have l0: "year_start y0 + 365 \<le> year_start (y0 + 1)" by (rule year_start_less) simp
  have lm: "year_start (y0 - 1) + 365 \<le> year_start y0" by (rule year_start_less) simp
  have l1: "year_start (y0 + 1) + 365 \<le> year_start (y0 + 1 + 1)" by (rule year_start_less) simp
  obtain k0 where k0: "monday_of d = isoweek1monday y0 + 7 * k0"
    using mod7_diff[OF monday_of_props(1) M0(1)] by blast
  obtain k1 where k1: "monday_of d = isoweek1monday (y0 + 1) + 7 * k1"
    using mod7_diff[OF monday_of_props(1) M1(1)] by blast
  have rhs: "iso8601_week d = (year_of t, (monday_of d - isoweek1monday (year_of t)) div 7 + 1)"
    unfolding iso8601_week_def Let_def t_def isoweek1monday_eq by simp
  consider (A) "d < isoweek1monday y0"
    | (B) "isoweek1monday y0 \<le> d" "isoweek1monday (y0 + 1) \<le> d"
    | (C) "isoweek1monday y0 \<le> d" "d < isoweek1monday (y0 + 1)" by linarith
  then show ?thesis
  proof cases
    case A
    then have w: "(d - isoweek1monday y0) div 7 < 0" by simp
    have "k0 \<le> - 1" using A k0 md by linarith
    then have "monday_of d \<le> isoweek1monday y0 - 7" using k0 by linarith
    then have "year_start (y0 - 1) \<le> t" "t < year_start (y0 - 1 + 1)"
      using M0(2,3) md d lm by (simp_all add: t_def)
    then have "year_of t = y0 - 1" by (rule year_of_eqI)
    then show ?thesis unfolding rhs isocalendar_def Let_def y0_def[symmetric] using w
      by (simp add: week_div[OF Mm(1), of d])
  next
    case B
    have "isoweek1monday (y0 + 1) \<le> monday_of d" using B(2) monday_le_iff[OF M1(1)] by simp
    then have "year_start (y0 + 1) \<le> t" "t < year_start (y0 + 1 + 1)" using M1(2,3) md d l1
      unfolding t_def by linarith+
    then have yt: "year_of t = y0 + 1" by (rule year_of_eqI)
    obtain j where j: "isoweek1monday (y0 + 1) = isoweek1monday y0 + 7 * j"
      using mod7_diff[OF M1(1) M0(1)] by blast
    have "52 \<le> j" using j M0(2,3) M1(2,3) l0 by linarith
    then have "364 \<le> d - isoweek1monday y0" using B j by linarith
    then have "364 div 7 \<le> (d - isoweek1monday y0) div 7" by (rule zdiv_mono1) simp
    then have w: "52 \<le> (d - isoweek1monday y0) div 7" by simp
    have "0 \<le> k1" "k1 \<le> 0" using \<open>isoweek1monday (y0 + 1) \<le> monday_of d\<close> k1 md d M1(2,3) by linarith+
    then have "(monday_of d - isoweek1monday (y0 + 1)) div 7 = 0" using k1 by simp
    then show ?thesis unfolding rhs isocalendar_def Let_def y0_def[symmetric] yt using w B
      by simp
  next
    case C
    have "k1 \<le> - 1" using C k1 md by linarith
    then have "monday_of d \<le> isoweek1monday (y0 + 1) - 7" using k1 by linarith
    moreover have "isoweek1monday y0 \<le> monday_of d" using C(1) monday_le_iff[OF M0(1)] by simp
    ultimately have "year_start y0 \<le> t" "t < year_start (y0 + 1)" using M0(2,3) M1(2,3) by (simp_all add: t_def)
    then have yt: "year_of t = y0" by (rule year_of_eqI)
    have w: "\<not> (d - isoweek1monday y0) div 7 < 0" using C by simp
    show ?thesis unfolding rhs isocalendar_def Let_def y0_def[symmetric] yt using w C
      by (simp add: week_div[OF M0(1), of d])
  qed
qed

subsection \<open>Labels and their parsing\<close>

lemma is_digit_digit: "n < 10 \<Longrightarrow> is_digit (digit n)"
  unfolding is_digit_def digit_def by (rule nth_mem) simp

lemma digit_val_table: "list_all (\<lambda>n. digit_val (digit n) = int n) [0..<10]"
  by code_simp

lemma digit_val_digit: "n < 10 \<Longrightarrow> digit_val (digit n) = int n"
  using digit_val_table unfolding list_all_iff by simp

lemma str_nat_1: "n < 10 \<Longrightarrow> str_nat n = [digit n]"
  by (simp add: str_nat.simps)

lemma str_nat_2: "10 \<le> n \<Longrightarrow> n < 100 \<Longrightarrow> str_nat n = [digit (n div 10), digit (n mod 10)]"
  by (subst str_nat.simps) (simp add: str_nat_1)

lemma str_nat_3: "100 \<le> n \<Longrightarrow> n < 1000 \<Longrightarrow> str_nat n = [digit (n div 100), digit (n div 10 mod 10), digit (n mod 10)]"
  by (subst str_nat.simps) (simp add: str_nat_2 div_mult2_eq[symmetric])

lemma str_nat_4: "1000 \<le> n \<Longrightarrow> n < 10000 \<Longrightarrow>
  str_nat n = [digit (n div 1000), digit (n div 100 mod 10), digit (n div 10 mod 10), digit (n mod 10)]"
  by (subst str_nat.simps) (simp add: str_nat_3 div_mult2_eq[symmetric])

lemma week_roundtrip: "\<forall>w\<in>{1..53::int}. match_V (zfill 2 (str_int w) @ ''-1'') = Some (w, ''-1'')"
  by code_simp

lemma str_int_year:
  assumes "1000 \<le> y" "y \<le> 9999"
  shows "str_int y = [digit (nat y div 1000), digit (nat y div 100 mod 10), digit (nat y div 10 mod 10), digit (nat y mod 10)]"
  using assms by (simp add: str_int_def str_nat_4)

lemma digits_val_4:
  assumes "a < 10" "b < 10" "c < 10" "d < 10"
  shows "digits_val [digit a, digit b, digit c, digit d] = int (1000 * a + 100 * b + 10 * c + d)"
  using assms by (simp add: digits_val_def digit_val_digit)

lemma nat_digits_4: "1000 * (n div 1000) + 100 * (n div 100 mod 10) + 10 * (n div 10 mod 10) + n mod 10 = (n::nat)"
proof -
  define q1 q2 q3 r1 r2 r3 where "q1 = n div 10" and "q2 = n div 100" and "q3 = n div 1000"
    and "r1 = n mod 10" and "r2 = n div 10 mod 10" and "r3 = n div 100 mod 10"
  have "q2 = q1 div 10" "q3 = q2 div 10" by (simp_all add: q1_def q2_def q3_def div_mult2_eq[symmetric])
  then have "q2 = 10 * q3 + r3" "q1 = 10 * q2 + r2" "n = 10 * q1 + r1"
    by (simp_all add: q1_def q2_def q3_def r1_def r2_def r3_def)
  then have "1000 * q3 + 100 * r3 + 10 * r2 + r1 = n" by simp
  then show ?thesis unfolding q1_def q2_def q3_def r1_def r2_def r3_def .
qed

lemma strptime_label:
  assumes "1000 \<le> y" "y \<le> 9999" "1 \<le> w" "w \<le> 53"
  shows "strptime_GVu (label_of (y, w) @ ''-1'') = Some (y, w, 1)"
proof -
  define n where "n = nat y"
  define g where "g = [digit (n div 1000), digit (n div 100 mod 10), digit (n div 10 mod 10), digit (n mod 10)]"
  have n: "n < 10000" "int n = y" using assms by (simp_all add: n_def)
  have lab: "label_of (y, w) @ ''-1'' = g @ ''-W'' @ zfill 2 (str_int w) @ ''-1''"
    using assms by (simp add: label_of_def str_int_year g_def n_def)
  have "n div 1000 < 10" using n(1) by simp
  then have g: "length g = 4" "list_all is_digit g" by (simp_all add: g_def is_digit_digit)
  have "digits_val g = int (1000 * (n div 1000) + 100 * (n div 100 mod 10) + 10 * (n div 10 mod 10) + n mod 10)"
    unfolding g_def using \<open>n div 1000 < 10\<close> by (intro digits_val_4) simp_all
  then have gv: "digits_val g = y" using nat_digits_4[of n] n(2) by simp
  have w: "match_V (zfill 2 (str_int w) @ ''-1'') = Some (w, ''-1'')"
    using bspec[OF week_roundtrip, of w] assms by simp
  have t4: "take 4 (g @ ''-W'' @ zfill 2 (str_int w) @ ''-1'') = g" using g(1) by simp
  have d4: "drop 4 (g @ ''-W'' @ zfill 2 (str_int w) @ ''-1'') = ''-W'' @ zfill 2 (str_int w) @ ''-1''"
    using g(1) by simp
  have d6: "drop 6 (g @ ''-W'' @ zfill 2 (str_int w) @ ''-1'') = zfill 2 (str_int w) @ ''-1''"
    using g(1) by simp
  show ?thesis unfolding lab strptime_GVu_def t4 d4 d6 w using g gv
    by (simp add: digit_val_def)
qed

lemma zfill_week:
  assumes "0 \<le> w" "w < 100"
  shows "zfill 2 (str_int w) = [digit (nat w div 10), digit (nat w mod 10)]"
proof (cases "w < 10")
  case True
  then show ?thesis using assms by (simp add: zfill_def str_int_def str_nat_1 digit_def)
next
  case False
  then show ?thesis using assms by (simp add: zfill_def str_int_def str_nat_2)
qed

lemma digits_val_2:
  assumes "a < 10" "b < 10"
  shows "digits_val [digit a, digit b] = int (10 * a + b)"
  using assms by (simp add: digits_val_def digit_val_digit)

lemma week_val:
  assumes "0 \<le> w" "w < 100"
  shows "length (zfill 2 (str_int w)) = 2" "list_all is_digit (zfill 2 (str_int w))"
    "digits_val (zfill 2 (str_int w)) = w"
proof -
  have a: "nat w div 10 < 10" "nat w mod 10 < 10" using assms by simp_all
  show "length (zfill 2 (str_int w)) = 2" "list_all is_digit (zfill 2 (str_int w))"
    using a by (simp_all add: zfill_week[OF assms] is_digit_digit)
  have "digits_val (zfill 2 (str_int w)) = int (10 * (nat w div 10) + nat w mod 10)"
    unfolding zfill_week[OF assms] using a by (rule digits_val_2)
  then show "digits_val (zfill 2 (str_int w)) = w" using assms by simp
qed

lemma label_of_format:
  assumes "1000 \<le> y" "y \<le> 9999" "1 \<le> w" "w \<le> 53"
  shows "\<exists>g v. label_of (y, w) = g @ ''-W'' @ v \<and> length g = 4 \<and> list_all is_digit g \<and> digits_val g = y
           \<and> length v = 2 \<and> list_all is_digit v \<and> digits_val v = w"
proof -
  define n where "n = nat y"
  define g where "g = [digit (n div 1000), digit (n div 100 mod 10), digit (n div 10 mod 10), digit (n mod 10)]"
  have n: "n < 10000" "int n = y" using assms by (simp_all add: n_def)
  have lab: "label_of (y, w) = g @ ''-W'' @ zfill 2 (str_int w)"
    using assms by (simp add: label_of_def str_int_year g_def n_def)
  have "n div 1000 < 10" using n(1) by simp
  then have g: "length g = 4" "list_all is_digit g" by (simp_all add: g_def is_digit_digit)
  have "digits_val g = int (1000 * (n div 1000) + 100 * (n div 100 mod 10) + 10 * (n div 10 mod 10) + n mod 10)"
    unfolding g_def using \<open>n div 1000 < 10\<close> by (intro digits_val_4) simp_all
  then have gv: "digits_val g = y" using nat_digits_4[of n] n(2) by simp
  have win: "w \<in> {1..53}" using assms by simp
  have "length (zfill 2 (str_int w)) = 2" "list_all is_digit (zfill 2 (str_int w))"
    "digits_val (zfill 2 (str_int w)) = w"
    using week_val[of w] assms by simp_all
  then show ?thesis using lab g gv by blast
qed

lemma isoweek1monday_jan4: "isoweek1monday y = monday_of (year_start y + 3)"
proof -
  obtain k where k: "monday_of (year_start y + 3) = isoweek1monday y + 7 * k"
    using mod7_diff[OF monday_of_props(1) isoweek1monday_props(1)] by blast
  have "k = 0" using k monday_of_props(2,3)[of "year_start y + 3"] isoweek1monday_props(2,3)[of y] by linarith
  then show ?thesis using k by simp
qed

lemma to_datetime_label:
  assumes "1000 \<le> y" "y \<le> 9999" "1 \<le> w" "w \<le> 53"
  shows "to_datetime_GVu (label_of (y, w) @ ''-1'') = Some ((isoweek1monday y + 7 * (w - 1)) * ns_per_day)"
proof -
  have "(let (year, julian) = calc_julian_from_V y w 1 in year_start year + julian - 1)
        = isoweek1monday y + 7 * (w - 1)"
    by (simp add: calc_julian_from_V_def Let_def isoweek1monday_jan4 monday_of_def)
  then show ?thesis unfolding to_datetime_GVu_def strptime_label[OF assms]
    by (simp add: Let_def split: prod.splits)
qed

subsection \<open>ISO weeks in order\<close>

lemma iso_decomp:
  obtains k where "monday_of d = isoweek1monday (fst (isocalendar d)) + 7 * k" "0 \<le> k" "k \<le> 52"
    "snd (isocalendar d) = k + 1" "fst (isocalendar d) = year_of (monday_of d + 3)"
proof -
  define t where "t = monday_of d + 3"
  define y where "y = year_of t"
  have iso: "isocalendar d = (y, (t - first_thursday y) div 7 + 1)"
    unfolding isocalendar_iso8601 iso8601_week_def Let_def t_def y_def by simp
  obtain k where k: "monday_of d = isoweek1monday y + 7 * k"
    using mod7_diff[OF monday_of_props(1) isoweek1monday_props(1)] by blast
  have t: "year_start y \<le> t" "t < year_start (y + 1)" using year_of_bounds[of t] by (simp_all add: y_def)
  have len: "year_start (y + 1) \<le> year_start y + 366" using year_len[of y] by linarith
  have k': "0 \<le> k" "k \<le> 52" using k t len isoweek1monday_props(2,3)[of y] unfolding t_def by linarith+
  have w: "(t - first_thursday y) div 7 = k" using k by (simp add: t_def isoweek1monday_eq)
  have f: "fst (isocalendar d) = y" and s: "snd (isocalendar d) = k + 1" by (simp_all add: iso w)
  show ?thesis
  proof (rule that[of k])
    show "monday_of d = isoweek1monday (fst (isocalendar d)) + 7 * k" unfolding f by (rule k)
    show "0 \<le> k" "k \<le> 52" by (rule k')+
    show "snd (isocalendar d) = k + 1" by (rule s)
    show "fst (isocalendar d) = year_of (monday_of d + 3)" unfolding f y_def t_def ..
  qed
qed

lemma iso_week_range: "1 \<le> snd (isocalendar d)" "snd (isocalendar d) \<le> 53"
  by (rule iso_decomp[of d]; simp)+

lemma monday_iso:
  "monday_of d = isoweek1monday (fst (isocalendar d)) + 7 * (snd (isocalendar d) - 1)"
  by (rule iso_decomp[of d]) simp

lemma iso_year: "fst (isocalendar d) = year_of (monday_of d + 3)"
  by (rule iso_decomp[of d])

lemma iso_year_bounds: "year_of (d - 3) \<le> fst (isocalendar d)" "fst (isocalendar d) \<le> year_of (d + 3)"
  unfolding iso_year using monday_of_props(2,3)[of d] by (intro year_of_mono; simp)+

lemma iso_same_week: "isocalendar d = isocalendar d' \<Longrightarrow> monday_of d = monday_of d'"
  using monday_iso[of d] monday_iso[of d'] by simp

lemma monday_of_mono: "d \<le> d' \<Longrightarrow> monday_of d \<le> monday_of d'"
proof -
  assume le: "d \<le> d'"
  obtain k where k: "monday_of d' = monday_of d + 7 * k"
    using mod7_diff[OF monday_of_props(1) monday_of_props(1)] by blast
  have "0 \<le> k" using k le monday_of_props(2,3)[of d] monday_of_props(2,3)[of d'] by linarith
  then show ?thesis using k by simp
qed

lemma iso_mono_monday:
  assumes "monday_of d < monday_of d'"
  shows "isocalendar d < isocalendar d'"
proof -
  have y: "fst (isocalendar d) \<le> fst (isocalendar d')"
    unfolding iso_year using assms by (intro year_of_mono) simp
  show ?thesis
  proof (cases "fst (isocalendar d) = fst (isocalendar d')")
    case True
    then have "snd (isocalendar d) < snd (isocalendar d')"
      using monday_iso[of d] monday_iso[of d'] assms by simp
    then show ?thesis using True by (simp add: less_prod_def)
  next
    case False
    then show ?thesis using y by (simp add: less_prod_def)
  qed
qed

lemma iso_monday_cong: "monday_of d = monday_of d' \<Longrightarrow> isocalendar d = isocalendar d'"
  unfolding isocalendar_iso8601 iso8601_week_def by simp

lemma iso_mono: "d \<le> d' \<Longrightarrow> isocalendar d \<le> isocalendar d'"
  using monday_of_mono[of d d'] iso_mono_monday[of d d'] iso_monday_cong[of d d']
  by (cases "monday_of d = monday_of d'") auto

lemma date_of_bounds: "in_bounds t \<Longrightarrow> - 106752 \<le> date_of t \<and> date_of t \<le> 106751"
proof -
  assume "in_bounds t"
  then have t: "- (2 ^ 63) \<le> t" "t \<le> 2 ^ 63" by (simp_all add: in_bounds_def)
  have "(- (2 ^ 63)) div 86400000000000 \<le> t div 86400000000000" using t(1) by (rule zdiv_mono1) simp
  moreover have "t div 86400000000000 \<le> 2 ^ 63 div 86400000000000" using t(2) by (rule zdiv_mono1) simp
  ultimately show ?thesis by (simp add: date_of_def ns_per_day_def)
qed

lemma year_lo: "year_of (- 106755) = 1677" by (simp add: year_of_def)
lemma year_hi: "year_of 106754 = 2262" by (simp add: year_of_def)

lemma iso_year_in_bounds:
  assumes "in_bounds t"
  shows "1677 \<le> fst (isocalendar (date_of t))" "fst (isocalendar (date_of t)) \<le> 2262"
proof -
  have d: "- 106752 \<le> date_of t" "date_of t \<le> 106751" using date_of_bounds[OF assms] by simp_all
  have "year_of (- 106755) \<le> year_of (date_of t - 3)" using d by (intro year_of_mono) simp
  then show "1677 \<le> fst (isocalendar (date_of t))" using iso_year_bounds(1)[of "date_of t"] year_lo by linarith
  have "year_of (date_of t + 3) \<le> year_of 106754" using d by (intro year_of_mono) simp
  then show "fst (isocalendar (date_of t)) \<le> 2262" using iso_year_bounds(2)[of "date_of t"] year_hi by linarith
qed

subsection \<open>The date range and the normalised rows\<close>

lemma date_of_add_days: "date_of (t + k * ns_per_day) = date_of t + k"
  by (simp add: date_of_def ns_per_day_def)

lemma date_of_mono: "t \<le> t' \<Longrightarrow> date_of t \<le> date_of t'"
  unfolding date_of_def ns_per_day_def by (rule zdiv_mono1) simp_all

lemma rollforward_ge: "t \<le> rollforward t"
  using weekday_range[of "date_of t"] by (simp add: rollforward_def Let_def ns_per_day_def)

lemma rollforward_date:
  "date_of (rollforward t) = (if weekday (date_of t) = 0 then date_of t else monday_of (date_of t) + 7)"
proof (cases "weekday (date_of t) = 0")
  case True
  then show ?thesis by (simp add: rollforward_def)
next
  case False
  define wd where "wd = weekday (date_of t)"
  have wd: "0 < wd" "wd < 7" using False weekday_range[of "date_of t"] by (simp_all add: wd_def)
  have "(7 - wd) mod 7 = 7 - wd" using wd by (intro mod_pos_pos_trivial) simp_all
  moreover have "(0 - wd) mod 7 = (0 - wd + 7) mod 7" by (simp only: mod_add_self2)
  ultimately have "(0 - wd) mod 7 = 7 - wd" by simp
  then have "(0 - weekday (date_of t)) mod 7 = 7 - weekday (date_of t)" unfolding wd_def .
  then show ?thesis using False by (simp add: rollforward_def Let_def date_of_add_days monday_of_def)
qed

lemma generate_range_set:
  "t \<in> set (generate_range cur stop) \<Longrightarrow> cur \<le> t \<and> t \<le> stop"
proof (induction cur stop rule: generate_range.induct)
  case (1 cur stop)
  show ?case
  proof (cases "cur \<le> stop")
    case True
    then have "t = cur \<or> t \<in> set (generate_range (cur + 7 * ns_per_day) stop)"
      using "1.prems" by (subst (asm) generate_range.simps) simp
    then show ?thesis using True "1.IH"[OF True] by (auto simp: ns_per_day_def)
  next
    case False
    then show ?thesis using "1.prems" by (subst (asm) generate_range.simps) simp
  qed
qed

lemma generate_range_empty: "stop < cur \<Longrightarrow> generate_range cur stop = []"
  by (subst generate_range.simps) simp

lemma series_min_props:
  "series_min ts = Some m \<Longrightarrow> m \<in> set ts \<and> (\<forall>t\<in>set ts. m \<le> t)"
proof (cases ts)
  case Nil
  assume "series_min ts = Some m" then show ?thesis using Nil by (simp add: series_min_def)
next
  case (Cons a r)
  assume "series_min ts = Some m"
  then have "m = fold min r a" using Cons by (simp add: series_min_def)
  then have "m = Min (set (a # r))" using Min.set_eq_fold[of a r] by simp
  then show ?thesis using Cons Min_in[of "set (a # r)"] Min_le[of "set (a # r)"] by auto
qed

lemma series_max_props:
  "series_max ts = Some m \<Longrightarrow> m \<in> set ts \<and> (\<forall>t\<in>set ts. t \<le> m)"
proof (cases ts)
  case Nil
  assume "series_max ts = Some m" then show ?thesis using Nil by (simp add: series_max_def)
next
  case (Cons a r)
  assume "series_max ts = Some m"
  then have "m = fold max r a" using Cons by (simp add: series_max_def)
  then have "m = Max (set (a # r))" using Max.set_eq_fold[of a r] by simp
  then show ?thesis using Cons Max_in[of "set (a # r)"] Max_ge[of "set (a # r)"] by auto
qed

lemma series_min_None: "series_min ts = None \<longleftrightarrow> ts = []"
  by (simp add: series_min_def split: list.splits)

lemma series_max_None: "series_max ts = None \<longleftrightarrow> ts = []"
  by (simp add: series_max_def split: list.splits)

lemma all_weeks_Inr:
  assumes "all_weeks df = Inr ws"
  obtains mn mx where "series_min (map opened_at df) = Some mn" "series_max (map opened_at df) = Some mx"
    "ws = generate_range (rollforward mn) mx"
  using assms unfolding all_weeks_def date_range_def by (auto split: option.splits)

lemma all_weeks_between:
  assumes "all_weeks df = Inr ws" "t \<in> set ws"
  shows "\<exists>a\<in>set df. \<exists>b\<in>set df. opened_at a \<le> t \<and> t \<le> opened_at b"
proof -
  obtain mn mx where m: "series_min (map opened_at df) = Some mn" "series_max (map opened_at df) = Some mx"
    "ws = generate_range (rollforward mn) mx" using assms(1) by (rule all_weeks_Inr)
  have "rollforward mn \<le> t" "t \<le> mx" using generate_range_set[of t "rollforward mn" mx] assms(2) m(3) by simp_all
  then have "mn \<le> t" "t \<le> mx" using rollforward_ge[of mn] by simp_all
  moreover have "mn \<in> opened_at ` set df" "mx \<in> opened_at ` set df"
    using series_min_props[OF m(1)] series_max_props[OF m(2)] by simp_all
  ultimately show ?thesis by auto
qed

lemma in_bounds_between: "in_bounds a \<Longrightarrow> in_bounds b \<Longrightarrow> a \<le> t \<Longrightarrow> t \<le> b \<Longrightarrow> in_bounds t"
  by (simp add: in_bounds_def)

lemma combined_df_row:
  assumes "r \<in> set (combined_df incident_df task_df)"
  obtains src raw t where "raw \<in> set (incident_df @ task_df)" "raw_opened_at raw = Some t"
    "normalize_row src raw = Some r"
proof -
  from assms have "\<exists>src raw. raw \<in> set (incident_df @ task_df) \<and> normalize_row src raw = Some r"
    unfolding combined_df_def by (auto simp: map_filter_def) blast+
  then obtain src raw where a: "raw \<in> set (incident_df @ task_df)" "normalize_row src raw = Some r"
    by blast
  then obtain t where "raw_opened_at raw = Some t" by (auto simp: normalize_row_def split: option.splits)
  then show ?thesis using a that by blast
qed

lemma normalize_row_fields:
  assumes "normalize_row src raw = Some r"
  shows "raw_opened_at raw = Some (opened_at r)"
    "year r = fst (isocalendar (date_of (opened_at r)))"
    "week r = snd (isocalendar (date_of (opened_at r)))"
    "week_label r = label_of (isocalendar (date_of (opened_at r)))"
    "assigned_to r = fillna ''Unassigned'' (raw_assigned_to raw)"
    "assignment_group r = fillna ''Unknown'' (raw_assignment_group raw)"
    "source r = src"
  using assms by (auto simp: normalize_row_def split: option.splits)

lemma combined_df_in_bounds:
  assumes "valid_input incident_df task_df" "r \<in> set (combined_df incident_df task_df)"
  shows "in_bounds (opened_at r)"
proof -
  obtain src raw t where a: "raw \<in> set (incident_df @ task_df)" "raw_opened_at raw = Some t"
    "normalize_row src raw = Some r" using assms(2) by (rule combined_df_row)
  have "t = opened_at r" using normalize_row_fields(1)[OF a(3)] a(2) by simp
  moreover have "in_bounds t" using assms(1) a(1,2) unfolding valid_input_def list_all_iff by force
  ultimately show ?thesis by simp
qed

subsection \<open>Loading the module\<close>

lemma load_module_Inr:
  assumes "load_module incident_df task_df = Inr m"
  obtains ws where "all_weeks (combined_df incident_df task_df) = Inr ws"
    "the_combined_df m = combined_df incident_df task_df"
    "the_unique_weeks m = sort (remdups (all_week_labels ws))"
    "the_unique_people m = unique_people (combined_df incident_df task_df)"
    "the_assignment_groups m = assignment_groups (combined_df incident_df task_df)"
  using assms unfolding load_module_def unique_weeks_def Let_def
  by (auto split: sum.splits)

lemma axis_label:
  assumes "valid_input incident_df task_df" "load_module incident_df task_df = Inr m"
    "l \<in> set (the_unique_weeks m)"
  obtains d where "l = label_of (isocalendar d)" "1677 \<le> fst (isocalendar d)" "fst (isocalendar d) \<le> 2262"
proof -
  obtain ws where ws: "all_weeks (combined_df incident_df task_df) = Inr ws"
    "the_unique_weeks m = sort (remdups (all_week_labels ws))" using assms(2) by (rule load_module_Inr)
  then obtain t where t: "t \<in> set ws" "l = label_of (isocalendar (date_of t))"
    using assms(3) by (auto simp: all_week_labels_def)
  obtain a b where ab: "a \<in> set (combined_df incident_df task_df)" "b \<in> set (combined_df incident_df task_df)"
    "opened_at a \<le> t" "t \<le> opened_at b" using all_weeks_between[OF ws(1) t(1)] by blast
  have "in_bounds t"
    using combined_df_in_bounds[OF assms(1) ab(1)] combined_df_in_bounds[OF assms(1) ab(2)] ab(3,4)
    by (rule in_bounds_between)
  then show ?thesis using that[of "date_of t"] t(2) iso_year_in_bounds[of t] by simp
qed

lemma week_to_date_all:
  assumes "\<forall>l\<in>set ls. to_datetime_GVu (l @ ''-1'') \<noteq> None"
  shows "week_to_date ls = Inr (map (\<lambda>l. (l, the (to_datetime_GVu (l @ ''-1'')))) ls)"
  using assms by (induction ls) auto

lemma week_to_date_Inr:
  assumes "week_to_date ls = Inr d"
  shows "d = map (\<lambda>l. (l, the (to_datetime_GVu (l @ ''-1'')))) ls"
  using assms by (induction ls arbitrary: d) (auto split: option.splits sum.splits)

lemma map_of_graph: "map_of (map (\<lambda>k. (k, f k)) ks) k = (if k \<in> set ks then Some (f k) else None)"
  by (induction ks) auto

lemma to_datetime_iso:
  assumes "1000 \<le> fst (isocalendar d)" "fst (isocalendar d) \<le> 9999"
  shows "to_datetime_GVu (label_of (isocalendar d) @ ''-1'') = Some (monday_of d * ns_per_day)"
proof -
  have "to_datetime_GVu (label_of (fst (isocalendar d), snd (isocalendar d)) @ ''-1'')
      = Some ((isoweek1monday (fst (isocalendar d)) + 7 * (snd (isocalendar d) - 1)) * ns_per_day)"
    using assms iso_week_range[of d] by (intro to_datetime_label) simp_all
  then show ?thesis using monday_iso[of d] by simp
qed

lemma week_key_iso:
  assumes "1000 \<le> fst (isocalendar d)" "fst (isocalendar d) \<le> 9999"
  shows "week_key (label_of (isocalendar d)) = Some (isocalendar d)"
proof -
  have "strptime_GVu (label_of (fst (isocalendar d), snd (isocalendar d)) @ ''-1'')
      = Some (fst (isocalendar d), snd (isocalendar d), 1)"
    using assms iso_week_range[of d] by (intro strptime_label) simp_all
  then show ?thesis by (simp add: week_key_def)
qed

lemma week_to_date_axis:
  assumes "valid_input incident_df task_df" "load_module incident_df task_df = Inr m"
  shows "week_to_date (the_unique_weeks m)
         = Inr (map (\<lambda>l. (l, the (to_datetime_GVu (l @ ''-1'')))) (the_unique_weeks m))"
proof (rule week_to_date_all, rule ballI)
  fix l assume "l \<in> set (the_unique_weeks m)"
  then obtain d where d: "l = label_of (isocalendar d)" "1677 \<le> fst (isocalendar d)" "fst (isocalendar d) \<le> 2262"
    using axis_label[OF assms] by blast
  have "to_datetime_GVu (label_of (isocalendar d) @ ''-1'') = Some (monday_of d * ns_per_day)"
    using d(2,3) by (intro to_datetime_iso) simp_all
  then show "to_datetime_GVu (l @ ''-1'') \<noteq> None" using d(1) by simp
qed

lemma map_sort_key: "map h (sort_key (\<lambda>x. k (h x)) xs) = sort_key k (map h xs)"
proof (induction xs)
  case Nil then show ?case by simp
next
  case (Cons x xs)
  have ins: "map h (insort_key (\<lambda>x. k (h x)) x ys) = insort_key k (h x) (map h ys)" for ys
    by (induction ys) simp_all
  show ?case using Cons by (simp add: ins)
qed

lemma map_of_grouped:
  "map_of (grouped df) k = (let keys = map (\<lambda>r. (week_label r, assigned_to r)) df
                            in if k \<in> set keys then Some (count_list keys k) else None)"
  unfolding grouped_def Let_def by (simp add: map_of_graph)

lemma count_list_filter: "count_list (map f xs) k = length (filter (\<lambda>x. f x = k) xs)"
  by (induction xs) auto

lemma reindex_count:
  "reindex (grouped df) idx
   = map (\<lambda>k. (fst k, snd k, length (filter (\<lambda>r. week_label r = fst k \<and> assigned_to r = snd k) df))) idx"
proof -
  have "(case map_of (grouped df) k of None \<Rightarrow> 0 | Some n \<Rightarrow> n)
        = length (filter (\<lambda>r. week_label r = fst k \<and> assigned_to r = snd k) df)" for k
  proof -
    have "(case map_of (grouped df) k of None \<Rightarrow> 0 | Some n \<Rightarrow> n)
          = count_list (map (\<lambda>r. (week_label r, assigned_to r)) df) k"
      by (simp add: map_of_grouped Let_def count_list_0_iff)
    also have "\<dots> = length (filter (\<lambda>r. (week_label r, assigned_to r) = k) df)" by (rule count_list_filter)
    also have "\<dots> = length (filter (\<lambda>r. week_label r = fst k \<and> assigned_to r = snd k) df)"
      by (cases k) simp
    finally show ?thesis .
  qed
  then show ?thesis by (simp add: reindex_def)
qed

subsection \<open>Evaluating the examples\<close>

lemma isocalendarI:
  assumes "year_start y \<le> monday_of d + 3" "monday_of d + 3 < year_start (y + 1)"
    "monday_of d = isoweek1monday y + 7 * (w - 1)"
  shows "isocalendar d = (y, w)"
proof -
  have y: "year_of (monday_of d + 3) = y" using assms(1,2) by (rule year_of_eqI)
  have "isocalendar d = (y, (monday_of d + 3 - first_thursday y) div 7 + 1)"
    unfolding isocalendar_iso8601 iso8601_week_def Let_def y ..
  also have "monday_of d + 3 - first_thursday y = 7 * (w - 1)"
    using assms(3) by (simp add: isoweek1monday_eq)
  finally show ?thesis by simp
qed

lemmas day_eval = ymd_def year_start_def days_before_year_def days_before_month_def is_leap_def
  at_hour_def ns_per_day_def date_of_def
lemmas week_eval = monday_of_def weekday_def isoweek1monday_def year_start_def days_before_year_def Let_def
lemmas str_eval = label_of_def str_int_def str_nat_1 str_nat_2 str_nat_4 zfill_def digit_def
lemmas char_eval = less_eq_char_def less_char_def

lemma iso_20080: "isocalendar 20080 = (2024, 52)" by (rule isocalendarI) (simp_all add: week_eval)
lemma iso_20087: "isocalendar 20087 = (2025, 1)" by (rule isocalendarI) (simp_all add: week_eval)
lemma iso_20094: "isocalendar 20094 = (2025, 2)" by (rule isocalendarI) (simp_all add: week_eval)

lemma year_end_df:
  "combined_df year_end_incident year_end_task = the_combined_df year_end_globals"
  by (simp add: year_end_incident_def year_end_task_def year_end_globals_def combined_df_def
      map_filter_def normalize_row_def ticket_def fillna_def day_eval iso_20080 iso_20094 str_eval)

lemma year_end_all_weeks:
  "all_weeks (the_combined_df year_end_globals)
     = Inr [at_hour (ymd 2024 12 23) 0, at_hour (ymd 2024 12 30) 0, at_hour (ymd 2025 1 6) 0]"
  by (simp add: year_end_globals_def all_weeks_def series_min_def series_max_def date_range_def
      rollforward_def generate_range.simps weekday_def day_eval)

lemma year_end_unique_weeks:
  "unique_weeks (the_combined_df year_end_globals) = Inr [''2024-W52'', ''2025-W01'', ''2025-W02'']"
  unfolding unique_weeks_def year_end_all_weeks
  by (simp add: all_week_labels_def day_eval iso_20080 iso_20087 iso_20094 str_eval char_eval)

lemma year_end_load: "load_module year_end_incident year_end_task = Inr year_end_globals"
  unfolding load_module_def Let_def year_end_df year_end_unique_weeks
  by (simp add: year_end_globals_def assignment_groups_def unique_people_def char_eval)

lemma td_2024_W52: "to_datetime_GVu ''2024-W52-1'' = Some (at_hour (ymd 2024 12 23) 0)"
  using to_datetime_iso[of 20080] by (simp add: iso_20080 str_eval monday_of_def weekday_def day_eval)

lemma td_2025_W01: "to_datetime_GVu ''2025-W01-1'' = Some (at_hour (ymd 2024 12 30) 0)"
  using to_datetime_iso[of 20087] by (simp add: iso_20087 str_eval monday_of_def weekday_def day_eval)

lemma td_2025_W02: "to_datetime_GVu ''2025-W02-1'' = Some (at_hour (ymd 2025 1 6) 0)"
  using to_datetime_iso[of 20094] by (simp add: iso_20094 str_eval monday_of_def weekday_def day_eval)

lemma year_end_week_to_date:
  "week_to_date (the_unique_weeks year_end_globals)
     = Inr [(''2024-W52'', at_hour (ymd 2024 12 23) 0), (''2025-W01'', at_hour (ymd 2024 12 30) 0),
            (''2025-W02'', at_hour (ymd 2025 1 6) 0)]"
  by (simp add: year_end_globals_def td_2024_W52 td_2025_W01 td_2025_W02)

lemmas table_eval = filled_def Let_def select_group_def grouped_def reindex_def week_sort_def
  cell_week_def cell_person_def cell_count_def

lemma year_end_filled_None:
  "filled year_end_globals None
     = Inr [(''2024-W52'', ''A'', 1), (''2024-W52'', ''B'', 0), (''2025-W01'', ''A'', 0),
            (''2025-W01'', ''B'', 0), (''2025-W02'', ''A'', 0), (''2025-W02'', ''B'', 1)]"
  unfolding filled_def Let_def year_end_week_to_date
  by (simp add: year_end_globals_def select_group_def grouped_def reindex_def week_sort_def
      cell_week_def cell_person_def day_eval char_eval)

lemma year_end_filled_Z:
  "filled year_end_globals (Some ''Z'')
     = Inr [(''2024-W52'', ''A'', 0), (''2024-W52'', ''B'', 0), (''2025-W01'', ''A'', 0),
            (''2025-W01'', ''B'', 0), (''2025-W02'', ''A'', 0), (''2025-W02'', ''B'', 0)]"
  unfolding filled_def Let_def year_end_week_to_date
  by (simp add: year_end_globals_def select_group_def grouped_def reindex_def week_sort_def
      cell_week_def cell_person_def day_eval char_eval)

lemma year_end_valid: "valid_input year_end_incident year_end_task"
  by (simp add: valid_input_def year_end_incident_def year_end_task_def ticket_def in_bounds_def day_eval)

lemma iso_19725: "isocalendar 19725 = (2024, 1)" by (rule isocalendarI) (simp_all add: week_eval)
lemma iso_19730: "isocalendar 19730 = (2024, 2)" by (rule isocalendarI) (simp_all add: week_eval)
lemma iso_19737: "isocalendar 19737 = (2024, 3)" by (rule isocalendarI) (simp_all add: week_eval)
lemma iso_19739: "isocalendar 19739 = (2024, 3)" by (rule isocalendarI) (simp_all add: week_eval)

lemma scenario_df:
  "combined_df scenario_incident scenario_task = the_combined_df scenario_globals"
  by (simp add: scenario_incident_def scenario_task_def scenario_globals_def combined_df_def
      map_filter_def normalize_row_def ticket_def fillna_def day_eval iso_19725 iso_19739 str_eval)

lemma scenario_all_weeks:
  "all_weeks (the_combined_df scenario_globals)
     = Inr [at_hour (ymd 2024 1 8) 0, at_hour (ymd 2024 1 15) 0]"
  by (simp add: scenario_globals_def all_weeks_def series_min_def series_max_def date_range_def
      rollforward_def generate_range.simps weekday_def day_eval)

lemma scenario_unique_weeks:
  "unique_weeks (the_combined_df scenario_globals) = Inr [''2024-W02'', ''2024-W03'']"
  unfolding unique_weeks_def scenario_all_weeks
  by (simp add: all_week_labels_def day_eval iso_19730 iso_19737 str_eval char_eval)

lemma scenario_load: "load_module scenario_incident scenario_task = Inr scenario_globals"
  unfolding load_module_def Let_def scenario_df scenario_unique_weeks
  by (simp add: scenario_globals_def assignment_groups_def unique_people_def char_eval)

lemma td_2024_W02: "to_datetime_GVu ''2024-W02-1'' = Some (at_hour (ymd 2024 1 8) 0)"
  using to_datetime_iso[of 19730] by (simp add: iso_19730 str_eval monday_of_def weekday_def day_eval)

lemma td_2024_W03: "to_datetime_GVu ''2024-W03-1'' = Some (at_hour (ymd 2024 1 15) 0)"
  using to_datetime_iso[of 19737] by (simp add: iso_19737 str_eval monday_of_def weekday_def day_eval)

lemma scenario_week_to_date:
  "week_to_date (the_unique_weeks scenario_globals)
     = Inr [(''2024-W02'', at_hour (ymd 2024 1 8) 0), (''2024-W03'', at_hour (ymd 2024 1 15) 0)]"
  by (simp add: scenario_globals_def td_2024_W02 td_2024_W03)

lemma scenario_filled_None:
  "filled scenario_globals None
     = Inr [(''2024-W02'', ''A'', 0), (''2024-W02'', ''B'', 0),
            (''2024-W03'', ''A'', 0), (''2024-W03'', ''B'', 1)]"
  unfolding filled_def Let_def scenario_week_to_date
  by (simp add: scenario_globals_def select_group_def grouped_def reindex_def week_sort_def
      cell_week_def cell_person_def day_eval char_eval)

lemma empty_df: "combined_df [] [] = []"
  by (simp add: combined_df_def map_filter_def)

lemma all_NaT_df:
  "combined_df [\<lparr>raw_assigned_to = Some ''A'', raw_assignment_group = Some ''X'', raw_opened_at = None\<rparr>] [] = []"
  by (simp add: combined_df_def map_filter_def normalize_row_def)

lemma no_rows_raise: "unique_weeks [] = Inl ValueError"
  by (simp add: unique_weeks_def all_weeks_def series_min_def date_range_def)

subsection \<open>The dense table\<close>

lemma filled_Inr:
  assumes "filled m sel = Inr f"
  obtains d where "week_to_date (the_unique_weeks m) = Inr d"
    "f = sort_key (\<lambda>c. (week_sort d (cell_week c), cell_person c))
           (reindex (grouped (select_group (the_combined_df m) sel))
              (List.product (the_unique_weeks m) (the_unique_people m)))"
  using assms unfolding filled_def Let_def by (auto split: sum.splits)

lemma filled_valid:
  assumes "valid_input incident_df task_df" "load_module incident_df task_df = Inr m"
  shows "\<exists>f. filled m sel = Inr f"
  unfolding filled_def Let_def week_to_date_axis[OF assms] by simp

lemma cell_key_reindex:
  "map (\<lambda>c. (cell_week c, cell_person c)) (reindex g idx) = idx"
  by (simp add: reindex_def cell_week_def cell_person_def comp_def)

lemma filled_keys:
  assumes "filled m sel = Inr f"
  obtains d where "week_to_date (the_unique_weeks m) = Inr d"
    "map (\<lambda>c. (cell_week c, cell_person c)) f
       = sort_key (\<lambda>k. (week_sort d (fst k), snd k)) (List.product (the_unique_weeks m) (the_unique_people m))"
proof -
  obtain d where d: "week_to_date (the_unique_weeks m) = Inr d"
    "f = sort_key (\<lambda>c. (week_sort d (cell_week c), cell_person c))
           (reindex (grouped (select_group (the_combined_df m) sel))
              (List.product (the_unique_weeks m) (the_unique_people m)))"
    using assms by (rule filled_Inr)
  have "map (\<lambda>c. (cell_week c, cell_person c)) f
        = sort_key (\<lambda>k. (week_sort d (fst k), snd k))
            (map (\<lambda>c. (cell_week c, cell_person c))
               (reindex (grouped (select_group (the_combined_df m) sel))
                  (List.product (the_unique_weeks m) (the_unique_people m))))"
    unfolding d(2)
    using map_sort_key[of "\<lambda>c. (cell_week c, cell_person c)" "\<lambda>k. (week_sort d (fst k), snd k)"]
    by simp
  then show ?thesis using that[OF d(1)] by (simp only: cell_key_reindex)
qed

lemma axes_distinct:
  assumes "load_module incident_df task_df = Inr m"
  shows "distinct (the_unique_weeks m)" "distinct (the_unique_people m)"
proof -
  obtain ws where "the_unique_weeks m = sort (remdups (all_week_labels ws))"
    "the_unique_people m = unique_people (combined_df incident_df task_df)"
    using assms by (rule load_module_Inr)
  then show "distinct (the_unique_weeks m)" "distinct (the_unique_people m)"
    by (simp_all add: unique_people_def)
qed

lemma filled_counts:
  assumes "filled m sel = Inr f" "c \<in> set f"
  shows "cell_count c = length (filter (\<lambda>r. week_label r = cell_week c \<and> assigned_to r = cell_person c)
                                  (select_group (the_combined_df m) sel))"
proof -
  obtain d where "f = sort_key (\<lambda>c. (week_sort d (cell_week c), cell_person c))
           (reindex (grouped (select_group (the_combined_df m) sel))
              (List.product (the_unique_weeks m) (the_unique_people m)))"
    using assms(1) by (rule filled_Inr)
  then have "c \<in> set (reindex (grouped (select_group (the_combined_df m) sel))
              (List.product (the_unique_weeks m) (the_unique_people m)))" using assms(2) by simp
  then show ?thesis unfolding reindex_count by (auto simp: cell_count_def cell_week_def cell_person_def)
qed

lemma filled_cols:
  assumes "filled m sel = Inr f" "filled m sel' = Inr f'"
  shows "map (\<lambda>c. (cell_week c, cell_person c)) f = map (\<lambda>c. (cell_week c, cell_person c)) f'"
proof -
  obtain d where d: "week_to_date (the_unique_weeks m) = Inr d"
    "map (\<lambda>c. (cell_week c, cell_person c)) f
       = sort_key (\<lambda>k. (week_sort d (fst k), snd k)) (List.product (the_unique_weeks m) (the_unique_people m))"
    using assms(1) by (rule filled_keys)
  obtain d' where d': "week_to_date (the_unique_weeks m) = Inr d'"
    "map (\<lambda>c. (cell_week c, cell_person c)) f'
       = sort_key (\<lambda>k. (week_sort d' (fst k), snd k)) (List.product (the_unique_weeks m) (the_unique_people m))"
    using assms(2) by (rule filled_keys)
  have "d = d'" using d(1) d'(1) by simp
  then show ?thesis using d(2) d'(2) by simp
qed

lemma unknown_group_rows:
  assumes "load_module incident_df task_df = Inr m" "g \<notin> set (the_assignment_groups m)" "g \<noteq> []"
  shows "select_group (the_combined_df m) (Some g) = []"
proof -
  obtain ws where "the_combined_df m = combined_df incident_df task_df"
    "the_assignment_groups m = assignment_groups (combined_df incident_df task_df)"
    using assms(1) by (rule load_module_Inr)
  then have "\<forall>r\<in>set (the_combined_df m). assignment_group r \<noteq> g"
    using assms(2) by (auto simp: assignment_groups_def)
  then show ?thesis using assms(3) by (simp add: select_group_def filter_empty_conv)
qed

lemma reindex_zero:
  "reindex (grouped []) idx = map (\<lambda>c. (cell_week c, cell_person c, 0)) (reindex g idx)"
  by (simp add: reindex_def grouped_def cell_week_def cell_person_def comp_def)

lemma date_lt_imp_lt: "date_of t < date_of t' \<Longrightarrow> t < t'"
  using date_of_mono[of t' t] by linarith

lemma row_iso:
  assumes "r \<in> set (combined_df incident_df task_df)"
  shows "(year r, week r) = isocalendar (date_of (opened_at r))"
proof -
  obtain src raw t where "normalize_row src raw = Some r" using assms by (rule combined_df_row)
  then show ?thesis using normalize_row_fields(2,3) by simp
qed

lemma iso_19727: "isocalendar 19727 = (2024, 1)" by (rule isocalendarI) (simp_all add: week_eval)

lemma one_week_df:
  "combined_df one_week_incident one_week_task =
     [\<lparr>assigned_to = ''A'', assignment_group = ''X'', opened_at = at_hour (ymd 2024 1 3) 9,
       source = Incident, year = 2024, week = 1, week_label = ''2024-W01''\<rparr>,
      \<lparr>assigned_to = ''B'', assignment_group = ''Y'', opened_at = at_hour (ymd 2024 1 5) 14,
       source = Task, year = 2024, week = 1, week_label = ''2024-W01''\<rparr>]"
  by (simp add: one_week_incident_def one_week_task_def combined_df_def
      map_filter_def normalize_row_def ticket_def fillna_def day_eval iso_19725 iso_19727 str_eval)

lemma weekday_after_monday:
  assumes "M mod 7 = 4"
  shows "weekday (M + j) = j mod 7"
proof -
  have "(4::int) mod 7 = 4" by simp
  then obtain k where k: "M = 4 + 7 * k" using mod7_diff[OF assms] by blast
  have "M + j + 3 = j + 7 * (k + 1)" using k by simp
  moreover have "(j + 7 * (k + 1)) mod 7 = j mod 7" by (rule mod_mult_self2)
  ultimately show ?thesis by (simp add: weekday_def)
qed

lemma monday_of_weekday: "weekday (monday_of d) = 0"
  using weekday_after_monday[OF monday_of_props(1), of d 0] by simp

lemma first_thursday_props:
  "weekday (first_thursday y) = 3" "year_start y \<le> first_thursday y" "first_thursday y < year_start y + 7"
proof -
  have "first_thursday y = isoweek1monday y + 3" using isoweek1monday_eq[of y] by simp
  then show "weekday (first_thursday y) = 3"
    using weekday_after_monday[OF isoweek1monday_props(1), of y 3] by simp
  show "year_start y \<le> first_thursday y" "first_thursday y < year_start y + 7"
    using isoweek1monday_eq[of y] isoweek1monday_props(2,3)[of y] by linarith+
qed

lemma iso_19722: "isocalendar 19722 = (2023, 52)" by (rule isocalendarI) (simp_all add: week_eval)
lemma iso_19724: "isocalendar 19724 = (2024, 1)" by (rule isocalendarI) (simp_all add: week_eval)

lemma normalize_new_years_eve:
  "normalize_row Incident (ticket ''A'' ''X'' (at_hour (ymd 2023 12 31) 0))
     = Some \<lparr>assigned_to = ''A'', assignment_group = ''X'', opened_at = at_hour (ymd 2023 12 31) 0,
             source = Incident, year = 2023, week = 52, week_label = ''2023-W52''\<rparr>"
  by (simp add: normalize_row_def ticket_def fillna_def day_eval iso_19722 str_eval)

lemma normalize_jan_2:
  "normalize_row Task (ticket ''B'' ''Y'' (at_hour (ymd 2024 1 2) 0))
     = Some \<lparr>assigned_to = ''B'', assignment_group = ''Y'', opened_at = at_hour (ymd 2024 1 2) 0,
             source = Task, year = 2024, week = 1, week_label = ''2024-W01''\<rparr>"
  by (simp add: normalize_row_def ticket_def fillna_def day_eval iso_19724 str_eval)

subsection \<open>The traces of a figure\<close>

lemma update_chart_Inr:
  assumes "update_chart m sel fig"
  obtains f where "filled m sel = Inr f"
    "sort_values_desc (count_sums f) (map trace_name fig)"
    "fig = map (person_trace f) (enumerate 0 (map trace_name fig))"
  using assms unfolding update_chart_def by (auto split: sum.splits)

lemma trace_in_fig:
  assumes "fig = map (person_trace f) (enumerate 0 names)" "tr \<in> set fig"
  obtains i p where "tr = person_trace f (i, p)"
  using assms by auto

lemma person_trace_fields:
  "trace_name (person_trace f (i, p)) = p"
  "trace_x (person_trace f (i, p)) = map cell_week (filter (\<lambda>c. cell_person c = p) f)"
  "trace_y (person_trace f (i, p)) = map cell_count (filter (\<lambda>c. cell_person c = p) f)"
  by (simp_all add: person_trace_def Let_def)

lemma sorted_wrt_from_key:
  assumes "sorted (map g xs)" "distinct xs"
    "\<And>a b. a \<in> set xs \<Longrightarrow> b \<in> set xs \<Longrightarrow> g a \<le> g b \<Longrightarrow> a \<noteq> b \<Longrightarrow> h a < h b"
  shows "sorted_wrt (\<lambda>a b. h a < h b) xs"
  using assms
proof (induction xs)
  case Nil then show ?case by simp
next
  case (Cons x xs)
  have "h x < h y" if "y \<in> set xs" for y
    using Cons.prems(1,2) that by (intro Cons.prems(3)) auto
  moreover have "sorted_wrt (\<lambda>a b. h a < h b) xs"
    using Cons.prems by (intro Cons.IH) auto
  ultimately show ?case by simp
qed

lemma sorted_map_pair_const:
  fixes g :: "'a \<Rightarrow> 'b::linorder" and p :: "'c::linorder"
  shows "sorted (map (\<lambda>c. (g c, p)) xs) \<Longrightarrow> sorted (map g xs)"
  by (induction xs) (auto simp: less_eq_prod_def)

lemma person_weeks_sorted:
  assumes "filled m sel = Inr f"
  obtains d where "week_to_date (the_unique_weeks m) = Inr d"
    "sorted (map (week_sort d) (map cell_week (filter (\<lambda>c. cell_person c = p) f)))"
proof -
  obtain d where d: "week_to_date (the_unique_weeks m) = Inr d"
    "f = sort_key (\<lambda>c. (week_sort d (cell_week c), cell_person c))
           (reindex (grouped (select_group (the_combined_df m) sel))
              (List.product (the_unique_weeks m) (the_unique_people m)))"
    using assms by (rule filled_Inr)
  have "sorted (map (\<lambda>c. (week_sort d (cell_week c), cell_person c)) f)"
    unfolding d(2) by (rule sorted_sort_key)
  then have "sorted (map (\<lambda>c. (week_sort d (cell_week c), cell_person c)) (filter (\<lambda>c. cell_person c = p) f))"
    by (rule sorted_filter)
  moreover have "map (\<lambda>c. (week_sort d (cell_week c), cell_person c)) (filter (\<lambda>c. cell_person c = p) f)
      = map (\<lambda>c. (week_sort d (cell_week c), p)) (filter (\<lambda>c. cell_person c = p) f)"
    by (rule map_cong) auto
  ultimately have "sorted (map (\<lambda>c. (week_sort d (cell_week c), p)) (filter (\<lambda>c. cell_person c = p) f))"
    by simp
  then have "sorted (map (\<lambda>c. week_sort d (cell_week c)) (filter (\<lambda>c. cell_person c = p) f))"
    by (rule sorted_map_pair_const)
  then have "sorted (map (week_sort d) (map cell_week (filter (\<lambda>c. cell_person c = p) f)))"
    by (simp add: comp_def)
  then show ?thesis using that d(1) by blast
qed

lemma person_weeks_distinct:
  assumes "load_module incident_df task_df = Inr m" "filled m sel = Inr f"
  shows "distinct (map cell_week (filter (\<lambda>c. cell_person c = p) f))"
    "set (map cell_week (filter (\<lambda>c. cell_person c = p) f)) \<subseteq> set (the_unique_weeks m)"
proof -
  obtain d where k: "map (\<lambda>c. (cell_week c, cell_person c)) f
       = sort_key (\<lambda>k. (week_sort d (fst k), snd k)) (List.product (the_unique_weeks m) (the_unique_people m))"
    using assms(2) by (rule filled_keys)
  have "distinct (map (\<lambda>c. (cell_week c, cell_person c)) f)"
    unfolding k using axes_distinct[OF assms(1)] by (simp add: distinct_product)
  then have "distinct (map (\<lambda>c. (cell_week c, cell_person c)) (filter (\<lambda>c. cell_person c = p) f))"
    by (rule distinct_map_filter)
  then have inj: "inj_on (\<lambda>c. (cell_week c, cell_person c)) (set (filter (\<lambda>c. cell_person c = p) f))"
    and dist: "distinct (filter (\<lambda>c. cell_person c = p) f)"
    by (simp_all add: distinct_map)
  have "inj_on cell_week (set (filter (\<lambda>c. cell_person c = p) f))"
  proof (rule inj_onI)
    fix a b
    assume a: "a \<in> set (filter (\<lambda>c. cell_person c = p) f)"
      and b: "b \<in> set (filter (\<lambda>c. cell_person c = p) f)"
      and w: "cell_week a = cell_week b"
    have "cell_person a = cell_person b" using a b by simp
    then have "(cell_week a, cell_person a) = (cell_week b, cell_person b)" using w by simp
    then show "a = b" using inj_onD[OF inj _ a b] by blast
  qed
  then show "distinct (map cell_week (filter (\<lambda>c. cell_person c = p) f))"
    using dist by (simp add: distinct_map)
  have e: "set (map (\<lambda>c. (cell_week c, cell_person c)) f) = set (the_unique_weeks m) \<times> set (the_unique_people m)"
    unfolding k by simp
  have "cell_week c \<in> set (the_unique_weeks m)" if "c \<in> set f" for c
  proof -
    have "(cell_week c, cell_person c) \<in> set (map (\<lambda>c. (cell_week c, cell_person c)) f)"
      using that by simp
    then have "(cell_week c, cell_person c) \<in> set (the_unique_weeks m) \<times> set (the_unique_people m)"
      unfolding e .
    then show ?thesis by simp
  qed
  then show "set (map cell_week (filter (\<lambda>c. cell_person c = p) f)) \<subseteq> set (the_unique_weeks m)" by auto
qed

lemma axis_week:
  assumes "valid_input incident_df task_df" "load_module incident_df task_df = Inr m"
    "week_to_date (the_unique_weeks m) = Inr d" "l \<in> set (the_unique_weeks m)"
  obtains dd where "l = label_of (isocalendar dd)" "week_key l = Some (isocalendar dd)"
    "week_sort d l = (0, monday_of dd * ns_per_day)"
proof -
  obtain dd where dd: "l = label_of (isocalendar dd)" "1677 \<le> fst (isocalendar dd)" "fst (isocalendar dd) \<le> 2262"
    using axis_label[OF assms(1,2,4)] by blast
  have y: "1000 \<le> fst (isocalendar dd)" "fst (isocalendar dd) \<le> 9999" using dd(2,3) by simp_all
  have k: "week_key l = Some (isocalendar dd)" unfolding dd(1) using y by (rule week_key_iso)
  have t: "to_datetime_GVu (l @ ''-1'') = Some (monday_of dd * ns_per_day)"
    unfolding dd(1) using y by (rule to_datetime_iso)
  have "d = map (\<lambda>l. (l, the (to_datetime_GVu (l @ ''-1'')))) (the_unique_weeks m)"
    using assms(3) by (rule week_to_date_Inr)
  then have "map_of d l = Some (the (to_datetime_GVu (l @ ''-1'')))"
    using assms(4) by (simp only: map_of_graph if_True)
  then have "week_sort d l = (0, monday_of dd * ns_per_day)" by (simp add: week_sort_def t)
  then show ?thesis using that dd(1) k by blast
qed

lemma week_key_2024_W09: "week_key ''2024-W09'' = Some (2024, 9)"
  by (simp add: week_key_def strptime_GVu_def match_V_def is_digit_def digits_val_def digit_val_def)

lemma week_key_2024_W10: "week_key ''2024-W10'' = Some (2024, 10)"
  by (simp add: week_key_def strptime_GVu_def match_V_def is_digit_def digits_val_def digit_val_def)

lemma week_key_2024_W52: "week_key ''2024-W52'' = Some (2024, 52)"
  by (simp add: week_key_def strptime_GVu_def match_V_def is_digit_def digits_val_def digit_val_def)

lemma week_key_2025_W01: "week_key ''2025-W01'' = Some (2025, 1)"
  by (simp add: week_key_def strptime_GVu_def match_V_def is_digit_def digits_val_def digit_val_def)

lemmas figure_eval = update_chart_def count_sums_def sort_values_desc_def person_trace_def palette_def
  cell_week_def cell_person_def cell_count_def Let_def str_nat_1 digit_def

lemma year_end_update_chart: "update_chart year_end_globals None year_end_figure"
  unfolding update_chart_def year_end_filled_None
  by (simp add: year_end_figure_def figure_eval char_eval)



subsection \<open>Counts that reach the table\<close>

lemma sum_list_insort_key: "sum_list (map g (insort_key k x xs)) = g x + sum_list (map g xs)"
  for g :: "'a \<Rightarrow> nat"
  by (induction xs) simp_all

lemma sum_list_sort_key: "sum_list (map g (sort_key k xs)) = sum_list (map g xs)"
  for g :: "'a \<Rightarrow> nat"
  by (induction xs) (simp_all add: sum_list_insort_key)

lemma count_by_value:
  assumes "distinct vs"
  shows "(\<Sum>v\<leftarrow>vs. length (filter (\<lambda>r. P r \<and> h r = v) xs))
         = length (filter (\<lambda>r. P r \<and> h r \<in> set vs) xs)"
  using assms
proof (induction vs)
  case Nil then show ?case by simp
next
  case (Cons v vs)
  have "length (filter (\<lambda>r. P r \<and> h r \<in> set (v # vs)) xs)
        = length (filter (\<lambda>r. P r \<and> h r = v) xs) + length (filter (\<lambda>r. P r \<and> h r \<in> set vs) xs)"
    using Cons.prems by (induction xs) auto
  then show ?case using Cons by simp
qed

lemma counts_on_axis:
  assumes "load_module incident_df task_df = Inr m" "filled m sel = Inr f"
  shows "sum_list (map cell_count f)
         = length (filter (\<lambda>r. week_label r \<in> set (the_unique_weeks m))
                     (select_group (the_combined_df m) sel))"
proof -
  define df where "df = select_group (the_combined_df m) sel"
  define ws where "ws = the_unique_weeks m"
  define ps where "ps = the_unique_people m"
  obtain d where f: "f = sort_key (\<lambda>c. (week_sort d (cell_week c), cell_person c))
           (reindex (grouped df) (List.product ws ps))"
    using assms(2) unfolding df_def ws_def ps_def by (rule filled_Inr)
  have dist: "distinct ws" "distinct ps" using axes_distinct[OF assms(1)] by (simp_all add: ws_def ps_def)
  have people: "assigned_to r \<in> set ps" if "r \<in> set df" for r
  proof -
    obtain aw where "the_combined_df m = combined_df incident_df task_df"
      "the_unique_people m = unique_people (combined_df incident_df task_df)"
      using assms(1) by (rule load_module_Inr)
    moreover have "r \<in> set (the_combined_df m)"
      using that by (auto simp: df_def select_group_def split: option.splits if_splits)
    ultimately show ?thesis by (simp add: ps_def unique_people_def)
  qed
  have "sum_list (map cell_count f) = sum_list (map cell_count (reindex (grouped df) (List.product ws ps)))"
    unfolding f by (rule sum_list_sort_key)
  also have "\<dots> = (\<Sum>k\<leftarrow>List.product ws ps.
                    length (filter (\<lambda>r. week_label r = fst k \<and> assigned_to r = snd k) df))"
    unfolding reindex_count by (simp add: cell_count_def comp_def)
  also have "\<dots> = (\<Sum>w\<leftarrow>ws. \<Sum>p\<leftarrow>ps. length (filter (\<lambda>r. week_label r = w \<and> assigned_to r = p) df))"
    by (induction ws) (simp_all add: comp_def)
  also have "\<dots> = (\<Sum>w\<leftarrow>ws. length (filter (\<lambda>r. week_label r = w \<and> assigned_to r \<in> set ps) df))"
    using count_by_value[OF dist(2), of "\<lambda>r. week_label r = _" assigned_to df] by simp
  also have "\<dots> = (\<Sum>w\<leftarrow>ws. length (filter (\<lambda>r. True \<and> week_label r = w) df))"
  proof -
    have "filter (\<lambda>r. week_label r = w \<and> assigned_to r \<in> set ps) df
          = filter (\<lambda>r. True \<and> week_label r = w) df" for w
      by (rule filter_cong) (use people in auto)
    then show ?thesis by simp
  qed
  also have "\<dots> = length (filter (\<lambda>r. True \<and> week_label r \<in> set ws) df)"
    using dist(1) by (rule count_by_value)
  finally show ?thesis by (simp add: df_def ws_def)
qed

subsection \<open>The order returned by the sorting kernel\<close>



lemma argsort_seventeen:
  "nargsort_descending [1, 1, 1, 1, 1, 1, 1, 1, 1, 1, 1, 1, 1, 1, 1, 1, 1]
     = Some [0, 1, 2, 3, 4, 5, 6, 7, 8, 9, 10, 11, 12, 13, 14, 15, 16]"
  by code_simp














lemma update_chart_returns_names:
  assumes "update_chart_returns m sel = Inr (Some fig)"
  obtains f where "filled m sel = Inr f" "totals f = Some (map trace_name fig)"
proof -
  obtain f ts where f: "filled m sel = Inr f" "totals f = Some ts"
    "fig = map (person_trace f) (enumerate 0 ts)"
    using assms unfolding update_chart_returns_def by (auto split: sum.splits)
  have "map trace_name fig = map snd (enumerate 0 ts)"
    unfolding f(3) by (simp add: person_trace_def Let_def comp_def)
  then have "map trace_name fig = ts" by simp
  then show ?thesis using that f(1,2) by simp
qed





section \<open>The claims\<close>

text \<open>
  Claim C1. The week axis should run from the week of the earliest \<^verbatim>\<open>opened_at\<close> to the
  week of the latest, without gaps. The program builds it with
  \<^verbatim>\<open>date_range(start=min, end=max, freq='W-MON')\<close>, which starts at the first Monday on
  or after the earliest timestamp. In the scenario of the specification the earliest
  record is labelled 2024-W01, and the axis is 2024-W02, 2024-W03: the first week is lost.
\<close>

theorem week_axis_skips_first_week:
  "map week_label (combined_df scenario_incident scenario_task) = [''2024-W01'', ''2024-W03'']
   \<and> unique_weeks (combined_df scenario_incident scenario_task) = Inr [''2024-W02'', ''2024-W03'']"
  unfolding scenario_df scenario_unique_weeks by (simp add: scenario_globals_def)

text \<open>
  Claim C2. The counts of the dense table should add up to the number of filtered records.
  In the scenario of the specification there are two records and no filter, and the
  counts of the table add up to one: the record of 3 January has a week label that is not
  on the week axis, and \<^verbatim>\<open>reindex\<close> drops it.
\<close>

theorem counts_lose_first_week:
  "load_module scenario_incident scenario_task = Inr scenario_globals
   \<and> length (select_group (the_combined_df scenario_globals) None) = 2
   \<and> filled scenario_globals None
       = Inr [(''2024-W02'', ''A'', 0), (''2024-W02'', ''B'', 0),
              (''2024-W03'', ''A'', 0), (''2024-W03'', ''B'', 1)]
   \<and> sum_list (map cell_count [(''2024-W02'', ''A'', 0), (''2024-W02'', ''B'', 0),
                                (''2024-W03'', ''A'', 0), (''2024-W03'', ''B'', 1)]) = 1"
  unfolding scenario_load scenario_filled_None
  by (simp add: scenario_globals_def select_group_def cell_count_def)

text \<open>
  Claim C3. For every input and every selection the dense table has one cell for each pair
  of a week of the week axis and a person of the people axis, no pair twice and none
  missing, and the count of a cell is the number of filtered records with that week label
  and that person, so it is 0 for a pair that no record matches.
\<close>

theorem dense_table:
  assumes "valid_input incident_df task_df" "load_module incident_df task_df = Inr m"
  shows "\<exists>f. filled m sel = Inr f
           \<and> length f = length (the_unique_weeks m) * length (the_unique_people m)
           \<and> distinct (map (\<lambda>c. (cell_week c, cell_person c)) f)
           \<and> set (map (\<lambda>c. (cell_week c, cell_person c)) f)
               = set (the_unique_weeks m) \<times> set (the_unique_people m)
           \<and> (\<forall>c\<in>set f. cell_count c
                 = length (filter (\<lambda>r. week_label r = cell_week c \<and> assigned_to r = cell_person c)
                            (select_group (the_combined_df m) sel)))"
proof -
  obtain f where f: "filled m sel = Inr f" using filled_valid[OF assms] by blast
  obtain d where k: "map (\<lambda>c. (cell_week c, cell_person c)) f
       = sort_key (\<lambda>k. (week_sort d (fst k), snd k)) (List.product (the_unique_weeks m) (the_unique_people m))"
    using f by (rule filled_keys)
  have "length (map (\<lambda>c. (cell_week c, cell_person c)) f)
        = length (the_unique_weeks m) * length (the_unique_people m)"
    unfolding k by simp
  then have 1: "length f = length (the_unique_weeks m) * length (the_unique_people m)" by simp
  have 2: "distinct (map (\<lambda>c. (cell_week c, cell_person c)) f)"
    unfolding k using axes_distinct[OF assms(2)] by (simp add: distinct_product)
  have 3: "set (map (\<lambda>c. (cell_week c, cell_person c)) f)
           = set (the_unique_weeks m) \<times> set (the_unique_people m)"
    unfolding k by simp
  show ?thesis
  proof (intro exI[of _ f] conjI ballI)
    show "filled m sel = Inr f" by (rule f)
    show "length f = length (the_unique_weeks m) * length (the_unique_people m)" by (rule 1)
    show "distinct (map (\<lambda>c. (cell_week c, cell_person c)) f)" by (rule 2)
    show "set (map (\<lambda>c. (cell_week c, cell_person c)) f)
           = set (the_unique_weeks m) \<times> set (the_unique_people m)" by (rule 3)
    show "cell_count c = length (filter (\<lambda>r. week_label r = cell_week c \<and> assigned_to r = cell_person c)
                            (select_group (the_combined_df m) sel))" if "c \<in> set f" for c
      using f that by (rule filled_counts)
  qed
qed

theorem dense_table_witness:
  "valid_input year_end_incident year_end_task
   \<and> load_module year_end_incident year_end_task = Inr year_end_globals
   \<and> filled year_end_globals None
       = Inr [(''2024-W52'', ''A'', 1), (''2024-W52'', ''B'', 0), (''2025-W01'', ''A'', 0),
              (''2025-W01'', ''B'', 0), (''2025-W02'', ''A'', 0), (''2025-W02'', ''B'', 1)]
   \<and> length [(''2024-W52'', ''A'', 1::nat), (''2024-W52'', ''B'', 0), (''2025-W01'', ''A'', 0),
              (''2025-W01'', ''B'', 0), (''2025-W02'', ''A'', 0), (''2025-W02'', ''B'', 1)]
       = length (the_unique_weeks year_end_globals) * length (the_unique_people year_end_globals)"
  using dense_table[OF year_end_valid year_end_load, of None] year_end_valid year_end_load
  unfolding year_end_filled_None by simp

text \<open>
  Claim C4. An input with no rows, or one in which no \<^verbatim>\<open>opened_at\<close> parses, should give
  empty axes and an empty table without an exception. In the program the minimum and
  the maximum of the empty column are NaT, \<^verbatim>\<open>date_range\<close> raises ValueError on them,
  and the module does not load.
\<close>

theorem empty_dataset_raises:
  "load_module [] [] = Inl ValueError
   \<and> load_module [\<lparr>raw_assigned_to = Some ''A'', raw_assignment_group = Some ''X'',
                    raw_opened_at = None\<rparr>] [] = Inl ValueError"
  unfolding load_module_def Let_def empty_df all_NaT_df no_rows_raise by simp

text \<open>
  Claim C5. In every trace of a figure the week labels stand for week keys that increase
  strictly in the lexicographic order of (ISO year, ISO week), which is the order of the
  calendar: every label parses back to its week key, and the keys along the trace are
  strictly increasing. In particular 2024-W52 comes before 2025-W01, and 2024-W09 before
  2024-W10.
\<close>

theorem series_chronological:
  assumes "valid_input incident_df task_df" "load_module incident_df task_df = Inr m"
    "update_chart m sel fig" "tr \<in> set fig"
  shows "(\<exists>ks. map week_key (trace_x tr) = map Some ks \<and> sorted_wrt (<) ks)
       \<and> week_key ''2024-W52'' = Some (2024, 52) \<and> week_key ''2025-W01'' = Some (2025, 1)
       \<and> ((2024, 52) :: int \<times> int) < (2025, 1)
       \<and> week_key ''2024-W09'' = Some (2024, 9) \<and> week_key ''2024-W10'' = Some (2024, 10)
       \<and> ((2024, 9) :: int \<times> int) < (2024, 10)"
proof -
  obtain f where f: "filled m sel = Inr f"
    "fig = map (person_trace f) (enumerate 0 (map trace_name fig))"
    using assms(3) by (rule update_chart_Inr)
  obtain i p where tr: "tr = person_trace f (i, p)" using f(2) assms(4) by (rule trace_in_fig)
  define xs where "xs = map cell_week (filter (\<lambda>c. cell_person c = p) f)"
  have x: "trace_x tr = xs" by (simp add: tr person_trace_fields xs_def)
  have dist: "distinct xs" and sub: "set xs \<subseteq> set (the_unique_weeks m)"
    unfolding xs_def using person_weeks_distinct[OF assms(2) f(1)] by simp_all
  obtain d where d: "week_to_date (the_unique_weeks m) = Inr d" "sorted (map (week_sort d) xs)"
    unfolding xs_def using f(1) by (rule person_weeks_sorted)
  define h where "h = (\<lambda>l. the (week_key l))"
  have step: "h a < h b" if "a \<in> set xs" "b \<in> set xs" "week_sort d a \<le> week_sort d b" "a \<noteq> b" for a b
  proof -
    have ab: "a \<in> set (the_unique_weeks m)" "b \<in> set (the_unique_weeks m)"
      using that(1,2) sub by blast+
    obtain da where da: "a = label_of (isocalendar da)" "week_key a = Some (isocalendar da)"
      "week_sort d a = (0, monday_of da * ns_per_day)"
      by (rule axis_week[OF assms(1,2) d(1) ab(1)])
    obtain db where db: "b = label_of (isocalendar db)" "week_key b = Some (isocalendar db)"
      "week_sort d b = (0, monday_of db * ns_per_day)"
      by (rule axis_week[OF assms(1,2) d(1) ab(2)])
    have "monday_of da * ns_per_day \<le> monday_of db * ns_per_day"
      using that(3) unfolding da(3) db(3) by (simp add: less_eq_prod_def)
    then have le: "monday_of da \<le> monday_of db" by (simp add: ns_per_day_def)
    have "isocalendar da \<noteq> isocalendar db" using that(4) da(1) db(1) by auto
    then have "monday_of da \<noteq> monday_of db" using iso_monday_cong[of da db] by blast
    then have "monday_of da < monday_of db" using le by simp
    then have "isocalendar da < isocalendar db" by (rule iso_mono_monday)
    then show ?thesis by (simp add: h_def da(2) db(2))
  qed
  have "sorted_wrt (\<lambda>a b. h a < h b) xs" using d(2) dist step by (rule sorted_wrt_from_key)
  then have s: "sorted_wrt (<) (map h xs)" by (simp add: sorted_wrt_map)
  have "week_key l = Some (h l)" if "l \<in> set xs" for l
  proof -
    have "l \<in> set (the_unique_weeks m)" using that sub by blast
    then obtain dl where "week_key l = Some (isocalendar dl)"
      using axis_week[OF assms(1,2) d(1)] by metis
    then show ?thesis by (simp add: h_def)
  qed
  then have "map week_key xs = map Some (map h xs)" by simp
  then have "\<exists>ks. map week_key (trace_x tr) = map Some ks \<and> sorted_wrt (<) ks"
    using s x by blast
  then show ?thesis
    by (simp add: week_key_2024_W09 week_key_2024_W10 week_key_2024_W52 week_key_2025_W01)
qed

theorem series_chronological_witness:
  "valid_input year_end_incident year_end_task
   \<and> load_module year_end_incident year_end_task = Inr year_end_globals
   \<and> update_chart year_end_globals None year_end_figure
   \<and> hd year_end_figure \<in> set year_end_figure
   \<and> trace_x (hd year_end_figure) = [''2024-W52'', ''2025-W01'', ''2025-W02'']
   \<and> (\<exists>ks. map week_key [''2024-W52'', ''2025-W01'', ''2025-W02''] = map Some ks \<and> sorted_wrt (<) ks)"
proof -
  have h: "hd year_end_figure \<in> set year_end_figure" by (simp add: year_end_figure_def)
  have x: "trace_x (hd year_end_figure) = [''2024-W52'', ''2025-W01'', ''2025-W02'']"
    by (simp add: year_end_figure_def)
  have "\<exists>ks. map week_key (trace_x (hd year_end_figure)) = map Some ks \<and> sorted_wrt (<) ks"
    using series_chronological[OF year_end_valid year_end_load year_end_update_chart h]
    by (rule conjunct1)
  then have k: "\<exists>ks. map week_key [''2024-W52'', ''2025-W01'', ''2025-W02''] = map Some ks
                  \<and> sorted_wrt (<) ks"
    unfolding x .
  show ?thesis
    using year_end_valid year_end_load year_end_update_chart h x k by (intro conjI)
qed

text \<open>
  Claim C6. The two axes come from the whole dataset and do not depend on the selection:
  the week axis and the people axis of the module are those of the unfiltered records,
  and for every selection the table has the same rows of (week, person) in the same order
  as the table with no selection, namely the product of the two axes. Only the counts can
  differ.
\<close>

theorem axes_independent_of_filter:
  assumes "valid_input incident_df task_df" "load_module incident_df task_df = Inr m"
  shows "unique_weeks (combined_df incident_df task_df) = Inr (the_unique_weeks m)
       \<and> unique_people (combined_df incident_df task_df) = the_unique_people m
       \<and> (\<exists>f f0. filled m sel = Inr f \<and> filled m None = Inr f0
             \<and> map cell_week f = map cell_week f0 \<and> map cell_person f = map cell_person f0
             \<and> set (map (\<lambda>c. (cell_week c, cell_person c)) f)
                 = set (the_unique_weeks m) \<times> set (the_unique_people m))"
proof -
  obtain ws where ws: "all_weeks (combined_df incident_df task_df) = Inr ws"
    "the_unique_weeks m = sort (remdups (all_week_labels ws))"
    "the_unique_people m = unique_people (combined_df incident_df task_df)"
    using assms(2) by (rule load_module_Inr)
  have 1: "unique_weeks (combined_df incident_df task_df) = Inr (the_unique_weeks m)"
    by (simp add: unique_weeks_def ws)
  obtain f where f: "filled m sel = Inr f" using filled_valid[OF assms] by blast
  obtain d where "map (\<lambda>c. (cell_week c, cell_person c)) f
       = sort_key (\<lambda>k. (week_sort d (fst k), snd k)) (List.product (the_unique_weeks m) (the_unique_people m))"
    using f by (rule filled_keys)
  then have s: "set (map (\<lambda>c. (cell_week c, cell_person c)) f)
                = set (the_unique_weeks m) \<times> set (the_unique_people m)" by simp
  obtain f0 where f0: "filled m None = Inr f0" using filled_valid[OF assms] by blast
  have k: "map (\<lambda>c. (cell_week c, cell_person c)) f = map (\<lambda>c. (cell_week c, cell_person c)) f0"
    using f(1) f0 by (rule filled_cols)
  have "map fst (map (\<lambda>c. (cell_week c, cell_person c)) f) = map fst (map (\<lambda>c. (cell_week c, cell_person c)) f0)"
    "map snd (map (\<lambda>c. (cell_week c, cell_person c)) f) = map snd (map (\<lambda>c. (cell_week c, cell_person c)) f0)"
    by (simp_all only: k)
  then have 2: "map cell_week f = map cell_week f0" "map cell_person f = map cell_person f0"
    by (simp_all add: comp_def)
  have 3: "\<exists>f f0. filled m sel = Inr f \<and> filled m None = Inr f0
             \<and> map cell_week f = map cell_week f0 \<and> map cell_person f = map cell_person f0
             \<and> set (map (\<lambda>c. (cell_week c, cell_person c)) f)
                 = set (the_unique_weeks m) \<times> set (the_unique_people m)"
    using f s f0 2 by (intro exI[of _ f] exI[of _ f0]) simp
  show ?thesis using 1 ws(3) 3 by simp
qed

theorem axes_independent_of_filter_witness:
  "valid_input year_end_incident year_end_task
   \<and> load_module year_end_incident year_end_task = Inr year_end_globals
   \<and> unique_weeks (combined_df year_end_incident year_end_task) = Inr [''2024-W52'', ''2025-W01'', ''2025-W02'']
   \<and> unique_people (combined_df year_end_incident year_end_task) = [''A'', ''B'']"
  using axes_independent_of_filter[OF year_end_valid year_end_load, of "Some ''X''"]
    year_end_valid year_end_load
  by (simp add: year_end_globals_def)

text \<open>
  Claim C7, as amended. An empty selection is the same as no selection: the table is that of
  the unfiltered records. A value that is not the group of any record is not treated as
  no filter: it selects no record, and the table has the rows of the unfiltered table
  with every count 0. Neither raises.
\<close>

theorem unselected_or_unknown_filter:
  assumes "valid_input incident_df task_df" "load_module incident_df task_df = Inr m"
    "g \<noteq> []" "g \<notin> set (the_assignment_groups m)"
  shows "filled m (Some []) = filled m None
       \<and> (\<exists>f0. filled m None = Inr f0
             \<and> filled m (Some g) = Inr (map (\<lambda>c. (cell_week c, cell_person c, 0)) f0))"
proof -
  have 1: "filled m (Some []) = filled m None" by (simp add: filled_def select_group_def)
  obtain f0 where f0: "filled m None = Inr f0" using filled_valid[OF assms(1,2)] by blast
  obtain d where d: "week_to_date (the_unique_weeks m) = Inr d"
    "f0 = sort_key (\<lambda>c. (week_sort d (cell_week c), cell_person c))
           (reindex (grouped (select_group (the_combined_df m) None))
              (List.product (the_unique_weeks m) (the_unique_people m)))"
    using f0 by (rule filled_Inr)
  define R where "R = reindex (grouped (select_group (the_combined_df m) None))
              (List.product (the_unique_weeks m) (the_unique_people m))"
  define z :: "cell \<Rightarrow> cell" where "z = (\<lambda>c. (cell_week c, cell_person c, 0))"
  define K where "K = (\<lambda>c::cell. (week_sort d (cell_week c), cell_person c))"
  have Kz: "K (z c) = K c" for c by (simp add: K_def z_def cell_week_def cell_person_def)
  have "map z (sort_key (\<lambda>c. K (z c)) R) = sort_key K (map z R)" by (rule map_sort_key)
  then have sw: "sort_key K (map z R) = map z (sort_key K R)" by (simp add: Kz)
  have "filled m (Some g) = Inr (sort_key K (reindex (grouped []) (List.product (the_unique_weeks m) (the_unique_people m))))"
    unfolding filled_def Let_def d(1) unknown_group_rows[OF assms(2,4,3)] K_def by simp
  also have "reindex (grouped []) (List.product (the_unique_weeks m) (the_unique_people m)) = map z R"
    unfolding R_def z_def by (rule reindex_zero)
  finally have a: "filled m (Some g) = Inr (sort_key K (map z R))" .
  have b: "f0 = sort_key K R" unfolding d(2) R_def K_def ..
  have "filled m (Some g) = Inr (map z f0)" unfolding a sw b ..
  then show ?thesis using 1 f0 unfolding z_def by blast
qed

theorem unselected_or_unknown_filter_witness:
  "valid_input year_end_incident year_end_task
   \<and> load_module year_end_incident year_end_task = Inr year_end_globals
   \<and> ''Z'' \<noteq> [] \<and> ''Z'' \<notin> set (the_assignment_groups year_end_globals)
   \<and> filled year_end_globals (Some []) = filled year_end_globals None
   \<and> filled year_end_globals (Some ''Z'')
       = Inr [(''2024-W52'', ''A'', 0), (''2024-W52'', ''B'', 0), (''2025-W01'', ''A'', 0),
              (''2025-W01'', ''B'', 0), (''2025-W02'', ''A'', 0), (''2025-W02'', ''B'', 0)]"
proof -
  have z: "''Z'' \<noteq> []" "''Z'' \<notin> set (the_assignment_groups year_end_globals)"
    by (simp_all add: year_end_globals_def)
  show ?thesis
    using unselected_or_unknown_filter[OF year_end_valid year_end_load z] year_end_valid year_end_load z
    by (simp add: year_end_filled_None cell_week_def cell_person_def)
qed

text \<open>
  Claim C7 as stated fails: with the records of the year-end example and the value Z, which
  is no record's group, the table differs from the table with no selection.
\<close>

theorem unknown_filter_counterexample:
  "load_module year_end_incident year_end_task = Inr year_end_globals
   \<and> ''Z'' \<notin> set (the_assignment_groups year_end_globals)
   \<and> filled year_end_globals (Some ''Z'') \<noteq> filled year_end_globals None"
  unfolding year_end_load year_end_filled_None year_end_filled_Z
  by (simp add: year_end_globals_def)

text \<open>
  Claim C8. Every record with a timestamp in the range of the type is kept and gets the
  year and week of ISO 8601: weeks run from Monday to Sunday, the ISO year is the calendar
  year of the week's Thursday, and week 1 is the week of the year's first Thursday, so the
  week number is between 1 and 53. The label is four digits of the ISO year, \<^verbatim>\<open>-W\<close>, and
  two digits of the week. A record of 2023-12-31 is labelled 2023-W52 and one of
  2024-01-02 is labelled 2024-W01.
\<close>

theorem week_bucketer_iso:
  assumes "raw_opened_at r = Some t" "in_bounds t"
  shows "(\<exists>row. normalize_row src r = Some row
            \<and> (year row, week row) = iso8601_week (date_of t)
            \<and> 1 \<le> week row \<and> week row \<le> 53
            \<and> (\<exists>g v. week_label row = g @ ''-W'' @ v
                  \<and> length g = 4 \<and> list_all is_digit g \<and> digits_val g = year row
                  \<and> length v = 2 \<and> list_all is_digit v \<and> digits_val v = week row))
       \<and> map week_label (combined_df [ticket ''A'' ''X'' (at_hour (ymd 2023 12 31) 0)]
                                      [ticket ''B'' ''Y'' (at_hour (ymd 2024 1 2) 0)])
           = [''2023-W52'', ''2024-W01'']"
proof -
  define d where "d = date_of t"
  define row where "row = \<lparr>assigned_to = fillna ''Unassigned'' (raw_assigned_to r),
                assignment_group = fillna ''Unknown'' (raw_assignment_group r),
                opened_at = t, source = src,
                year = fst (isocalendar d), week = snd (isocalendar d),
                week_label = label_of (isocalendar d)\<rparr>"
  have n: "normalize_row src r = Some row" using assms(1) by (simp add: normalize_row_def row_def d_def)
  have yw: "(year row, week row) = iso8601_week d"
    using isocalendar_iso8601[of d] by (simp add: row_def)
  have w: "1 \<le> week row" "week row \<le> 53" using iso_week_range[of d] by (simp_all add: row_def)
  have y: "1000 \<le> year row" "year row \<le> 9999"
    using iso_year_in_bounds[OF assms(2)] by (simp_all add: row_def d_def)
  have "week_label row = label_of (year row, week row)" by (simp add: row_def)
  then have lab: "\<exists>g v. week_label row = g @ ''-W'' @ v
                  \<and> length g = 4 \<and> list_all is_digit g \<and> digits_val g = year row
                  \<and> length v = 2 \<and> list_all is_digit v \<and> digits_val v = week row"
    using label_of_format[OF y w] by simp
  have 1: "\<exists>row. normalize_row src r = Some row
            \<and> (year row, week row) = iso8601_week (date_of t)
            \<and> 1 \<le> week row \<and> week row \<le> 53
            \<and> (\<exists>g v. week_label row = g @ ''-W'' @ v
                  \<and> length g = 4 \<and> list_all is_digit g \<and> digits_val g = year row
                  \<and> length v = 2 \<and> list_all is_digit v \<and> digits_val v = week row)"
    using n yw w lab unfolding d_def by (intro exI[of _ row]) simp
  have 2: "map week_label (combined_df [ticket ''A'' ''X'' (at_hour (ymd 2023 12 31) 0)]
                                      [ticket ''B'' ''Y'' (at_hour (ymd 2024 1 2) 0)])
           = [''2023-W52'', ''2024-W01'']"
    unfolding combined_df_def by (simp add: map_filter_def normalize_new_years_eve normalize_jan_2)
  show ?thesis using 1 2 by (rule conjI)
qed

theorem week_bucketer_iso_witness:
  "raw_opened_at (ticket ''A'' ''X'' (at_hour (ymd 2023 12 31) 0)) = Some (at_hour (ymd 2023 12 31) 0)
   \<and> in_bounds (at_hour (ymd 2023 12 31) 0)
   \<and> iso8601_week (date_of (at_hour (ymd 2023 12 31) 0)) = (2023, 52)"
proof -
  have a: "raw_opened_at (ticket ''A'' ''X'' (at_hour (ymd 2023 12 31) 0)) = Some (at_hour (ymd 2023 12 31) 0)"
    by (simp add: ticket_def)
  have b: "in_bounds (at_hour (ymd 2023 12 31) 0)" by (simp add: in_bounds_def day_eval)
  from week_bucketer_iso[OF a b, of Incident]
  have "iso8601_week (date_of (at_hour (ymd 2023 12 31) 0)) = (2023, 52)"
    unfolding normalize_new_years_eve by auto
  then show ?thesis using a b by simp
qed




text \<open>
  Claim C10. There are datasets with valid records whose week axis is empty. Every dataset
  whose records all lie in one ISO week and whose earliest \<^verbatim>\<open>opened_at\<close> is not on a
  Monday is one: the first Monday on or after the earliest timestamp is already past the
  latest one. The module loads, the week axis is empty, and the table has no cells under
  any selection.
\<close>

theorem single_week_axis_empty:
  assumes "series_min (map opened_at (combined_df incident_df task_df)) = Some mn"
    "weekday (date_of mn) \<noteq> 0"
    "\<forall>r\<in>set (combined_df incident_df task_df). (year r, week r) = isocalendar (date_of mn)"
  shows "combined_df incident_df task_df \<noteq> []
       \<and> unique_weeks (combined_df incident_df task_df) = Inr []
       \<and> (\<exists>m. load_module incident_df task_df = Inr m \<and> the_unique_weeks m = []
              \<and> filled m sel = Inr [])"
proof -
  define df where "df = combined_df incident_df task_df"
  have ne: "df \<noteq> []" using assms(1) by (auto simp: df_def series_min_def)
  then obtain mx where mx: "series_max (map opened_at df) = Some mx"
    using series_max_None[of "map opened_at df"] by (cases "series_max (map opened_at df)") auto
  then obtain r where r: "r \<in> set df" "opened_at r = mx" using series_max_props[OF mx] by auto
  have "isocalendar (date_of mx) = isocalendar (date_of mn)"
    using row_iso[of r incident_df task_df] r assms(3) by (simp add: df_def)
  then have "monday_of (date_of mx) = monday_of (date_of mn)" by (rule iso_same_week)
  then have "date_of mx < monday_of (date_of mn) + 7" using monday_of_props(3)[of "date_of mx"] by simp
  then have "date_of mx < date_of (rollforward mn)" using assms(2) by (simp add: rollforward_date)
  then have "mx < rollforward mn" by (rule date_lt_imp_lt)
  then have "generate_range (rollforward mn) mx = []" by (rule generate_range_empty)
  then have aw: "all_weeks df = Inr []"
    using assms(1) mx by (simp add: all_weeks_def date_range_def df_def)
  then have uw: "unique_weeks df = Inr []" by (simp add: unique_weeks_def all_week_labels_def)
  define m where "m = \<lparr>the_combined_df = df, the_assignment_groups = assignment_groups df,
                         the_unique_weeks = [], the_unique_people = unique_people df\<rparr>"
  have l: "load_module incident_df task_df = Inr m"
    using uw by (simp add: load_module_def m_def df_def Let_def)
  have f: "filled m sel = Inr []" by (simp add: filled_def m_def reindex_def)
  have "\<exists>m. load_module incident_df task_df = Inr m \<and> the_unique_weeks m = [] \<and> filled m sel = Inr []"
    using l f by (intro exI[of _ m]) (simp add: m_def)
  then show ?thesis using ne uw unfolding df_def by simp
qed

theorem single_week_axis_empty_witness:
  "series_min (map opened_at (combined_df one_week_incident one_week_task)) = Some (at_hour (ymd 2024 1 3) 9)
   \<and> weekday (date_of (at_hour (ymd 2024 1 3) 9)) = 2
   \<and> map (\<lambda>r. (year r, week r)) (combined_df one_week_incident one_week_task) = [(2024, 1), (2024, 1)]
   \<and> isocalendar (date_of (at_hour (ymd 2024 1 3) 9)) = (2024, 1)
   \<and> length (combined_df one_week_incident one_week_task) = 2
   \<and> unique_weeks (combined_df one_week_incident one_week_task) = Inr []"
proof -
  have a: "series_min (map opened_at (combined_df one_week_incident one_week_task)) = Some (at_hour (ymd 2024 1 3) 9)"
    unfolding one_week_df by (simp add: series_min_def day_eval)
  have b: "weekday (date_of (at_hour (ymd 2024 1 3) 9)) = 2" by (simp add: weekday_def day_eval)
  have i: "isocalendar (date_of (at_hour (ymd 2024 1 3) 9)) = (2024, 1)" by (simp add: day_eval iso_19725)
  have c: "\<forall>r\<in>set (combined_df one_week_incident one_week_task).
             (year r, week r) = isocalendar (date_of (at_hour (ymd 2024 1 3) 9))"
    unfolding i one_week_df by simp
  have b': "weekday (date_of (at_hour (ymd 2024 1 3) 9)) \<noteq> 0" using b by simp
  show ?thesis using single_week_axis_empty[OF a b' c, of None] a b i
    by (simp add: one_week_df)
qed

end
